theory Spec2Isabelle
  imports Main "HOL-Library.Sublist"
begin

section \<open>Python strings\<close>

text \<open>
  A Python \<open>str\<close> is a sequence of Unicode code points. The section headers of the
  program are CJK text and \<open>str.strip\<close>, \<open>str.splitlines\<close> and the regular
  expression class \<open>\s\<close> are defined on code points, so a string is modelled as a
  list of code points (natural numbers), not as a list of bytes.
\<close>

type_synonym pstr = "nat list"

text \<open>\<open>str.isspace\<close> on one character; the class \<open>\s\<close> of \<open>re\<close> is the same set.\<close>

definition isspace :: "nat \<Rightarrow> bool" where
  "isspace c \<longleftrightarrow>
     (9 \<le> c \<and> c \<le> 13) \<or> (28 \<le> c \<and> c \<le> 32) \<or> c = 133 \<or> c = 160 \<or> c = 5760 \<or>
     (8192 \<le> c \<and> c \<le> 8202) \<or> c = 8232 \<or> c = 8233 \<or> c = 8239 \<or> c = 8287 \<or> c = 12288"

text \<open>The line boundaries of \<open>str.splitlines\<close>.\<close>

definition is_linebreak :: "nat \<Rightarrow> bool" where
  "is_linebreak c \<longleftrightarrow>
     (10 \<le> c \<and> c \<le> 13) \<or> (28 \<le> c \<and> c \<le> 30) \<or> c = 133 \<or> c = 8232 \<or> c = 8233"

definition lstrip :: "pstr \<Rightarrow> pstr" where
  "lstrip s = dropWhile isspace s"

definition rstrip :: "pstr \<Rightarrow> pstr" where
  "rstrip s = rev (dropWhile isspace (rev s))"

definition strip :: "pstr \<Rightarrow> pstr" where
  "strip s = rstrip (lstrip s)"

definition startswith :: "pstr \<Rightarrow> pstr \<Rightarrow> bool" where
  "startswith s p \<longleftrightarrow> take (length p) s = p"

text \<open>\<open>"\n".join(lines)\<close>\<close>

fun join_nl :: "pstr list \<Rightarrow> pstr" where
  "join_nl [] = []"
| "join_nl [l] = l"
| "join_nl (l # m # ls) = l @ 10 # join_nl (m # ls)"

text \<open>
  \<open>str.splitlines()\<close>: the text is cut at every line boundary, \<open>\r\n\<close> counts as one
  boundary, and no empty last line is produced when the text ends with a boundary.
  \<open>cur\<close> is the line read so far.
\<close>

fun splitlines_from :: "pstr \<Rightarrow> pstr \<Rightarrow> pstr list" where
  "splitlines_from cur [] = (if cur = [] then [] else [cur])"
| "splitlines_from cur [c] = (if is_linebreak c then [cur] else [cur @ [c]])"
| "splitlines_from cur (c # d # cs) =
     (if c = 13 \<and> d = 10 then cur # splitlines_from [] cs
      else if is_linebreak c then cur # splitlines_from [] (d # cs)
      else splitlines_from (cur @ [c]) (d # cs))"

definition splitlines :: "pstr \<Rightarrow> pstr list" where
  "splitlines s = splitlines_from [] s"



section \<open>storage.py: tasks\<close>

text \<open>\<open>CHECK_PENDING = " "\<close>, \<open>CHECK_DONE = "x"\<close>, \<open>CHECK_ABANDONED = "~"\<close>\<close>

definition CHECK_PENDING :: pstr where "CHECK_PENDING = [32]"
definition CHECK_DONE :: pstr where "CHECK_DONE = [120]"
definition CHECK_ABANDONED :: pstr where "CHECK_ABANDONED = [126]"

text \<open>
  The three section headers: \<open>"## "\<close> followed by two CJK characters (tasks), three
  (abandoned) and three (daily summary). \<open>HEADING_MARK\<close> is the literal \<open>"## "\<close> of
  the \<open>startswith\<close> tests.
\<close>

definition TASK_SECTION_HEADER :: pstr where
  "TASK_SECTION_HEADER = [35, 35, 32, 20219, 21153]"

definition ABANDONED_SECTION_HEADER :: pstr where
  "ABANDONED_SECTION_HEADER = [35, 35, 32, 24050, 24223, 24323]"

definition SUMMARY_SECTION_HEADER :: pstr where
  "SUMMARY_SECTION_HEADER = [35, 35, 32, 26085, 24635, 32467]"

definition HEADING_MARK :: pstr where
  "HEADING_MARK = [35, 35, 32]"

record task =
  index :: int
  title :: pstr
  status :: pstr
  raw_line :: pstr

definition is_pending :: "task \<Rightarrow> bool" where
  "is_pending t \<longleftrightarrow> status t = CHECK_PENDING"

definition is_done :: "task \<Rightarrow> bool" where
  "is_done t \<longleftrightarrow> status t = CHECK_DONE"

definition is_abandoned :: "task \<Rightarrow> bool" where
  "is_abandoned t \<longleftrightarrow> status t = CHECK_ABANDONED"

text \<open>\<open>f"- [{self.status}] {self.title}"\<close>\<close>

definition to_markdown :: "task \<Rightarrow> pstr" where
  "to_markdown t = [45, 32, 91] @ status t @ [93, 32] @ title t"

text \<open>
  \<open>_TASK_LINE.match(s)\<close> for the pattern \<open>^\s*-\s*\[([ x~])\]\s*(.*)$\<close> with
  \<open>re.IGNORECASE\<close>; the result is the pair of groups 1 and 2. Under \<open>IGNORECASE\<close>
  the class \<open>[ x~]\<close> holds the space, \<open>x\<close>, \<open>X\<close> and \<open>~\<close>. Every
  \<open>\s*\<close> is followed by a character that is not white space, so it takes the whole
  run of white space; \<open>.\<close> does not match \<open>\n\<close> and \<open>$\<close> matches at the end
  or before a final \<open>\n\<close>, and giving white space back to \<open>(.*)\<close> cannot remove
  a \<open>\n\<close> from what remains.
\<close>

definition TASK_LINE_match :: "pstr \<Rightarrow> (pstr \<times> pstr) option" where
  "TASK_LINE_match s =
     (case dropWhile isspace s of
        c0 # s1 \<Rightarrow>
          if c0 = 45 then
            (case dropWhile isspace s1 of
               b # c # e # r \<Rightarrow>
                 if b = 91 \<and> (c = 32 \<or> c = 120 \<or> c = 88 \<or> c = 126) \<and> e = 93 then
                   (let t = dropWhile isspace r in
                    if 10 \<notin> set t then Some ([c], t)
                    else if 10 \<notin> set (butlast t) then Some ([c], butlast t)
                    else None)
                 else None
             | _ \<Rightarrow> None)
          else None
      | [] \<Rightarrow> None)"

text \<open>\<open>str.lower()\<close> on group 1, which holds one of the four characters above.\<close>

definition lower_group :: "pstr \<Rightarrow> pstr" where
  "lower_group g = map (\<lambda>c. if c = 88 then 120 else c) g"

definition parse_task_line :: "pstr \<Rightarrow> int \<Rightarrow> task option" where
  "parse_task_line line idx =
     (case TASK_LINE_match (strip line) of
        None \<Rightarrow> None
      | Some (g1, g2) \<Rightarrow>
          Some \<lparr>index = idx, title = strip g2,
                status = (if lower_group g1 = [120] then CHECK_DONE
                          else if lower_group g1 = [126] then CHECK_ABANDONED
                          else CHECK_PENDING),
                raw_line = rstrip line\<rparr>)"

section \<open>storage.py: the parser\<close>

text \<open>
  The local variables of \<open>parse_tasks_from_markdown\<close>; \<open>parse_step\<close> is the body of
  its \<open>for\<close> loop, and every \<open>continue\<close> returns the state.
\<close>

record pstate =
  st_tasks :: "task list"
  st_in_tasks :: bool
  st_in_abandoned :: bool
  st_index :: int

definition parse_init :: pstate where
  "parse_init = \<lparr>st_tasks = [], st_in_tasks = False, st_in_abandoned = False, st_index = 0\<rparr>"

definition parse_step :: "pstate \<Rightarrow> pstr \<Rightarrow> pstate" where
  "parse_step st line =
     (if strip line = TASK_SECTION_HEADER then
        st\<lparr>st_in_tasks := True, st_in_abandoned := False\<rparr>
      else if strip line = ABANDONED_SECTION_HEADER then
        st\<lparr>st_in_abandoned := True, st_in_tasks := False\<rparr>
      else if startswith (strip line) HEADING_MARK then
        st\<lparr>st_in_tasks := False, st_in_abandoned := False\<rparr>
      else if st_in_tasks st \<or> st_in_abandoned st then
        (case parse_task_line line (st_index st + 1) of
           None \<Rightarrow> st
         | Some t \<Rightarrow>
             st\<lparr>st_index := st_index st + 1,
                st_tasks := st_tasks st @
                  [if st_in_abandoned st
                   then \<lparr>index = index t, title = title t, status = CHECK_ABANDONED,
                         raw_line = raw_line t\<rparr>
                   else t]\<rparr>)
      else st)"

definition parse_lines :: "pstr list \<Rightarrow> task list" where
  "parse_lines ls = st_tasks (foldl parse_step parse_init ls)"

definition parse_tasks_from_markdown :: "pstr \<Rightarrow> task list" where
  "parse_tasks_from_markdown content = parse_lines (splitlines content)"

section \<open>storage.py: the serializer\<close>

text \<open>The two \<open>for\<close> loops append one canonical line per task.\<close>

definition append_tasks :: "pstr list \<Rightarrow> task list \<Rightarrow> pstr list" where
  "append_tasks ls ts = foldl (\<lambda>acc t. acc @ [to_markdown t]) ls ts"

definition serialize_lines :: "task list \<Rightarrow> pstr list" where
  "serialize_lines ts =
     (let main = filter (\<lambda>t. \<not> is_abandoned t) ts;
          abandoned = filter is_abandoned ts;
          ls = append_tasks [TASK_SECTION_HEADER, []] main
      in if abandoned \<noteq> []
         then append_tasks (ls @ [[], ABANDONED_SECTION_HEADER, []]) abandoned
         else ls)"

definition serialize_tasks_to_section :: "task list \<Rightarrow> pstr" where
  "serialize_tasks_to_section ts = join_nl (serialize_lines ts)"

section \<open>storage.py: the section editor\<close>

text \<open>
  The inner loops \<open>while i < len(lines) and not lines[i].strip().startswith("## ")\<close>
  drop lines up to the next heading line.
\<close>

definition is_heading :: "pstr \<Rightarrow> bool" where
  "is_heading l \<longleftrightarrow> startswith (strip l) HEADING_MARK"

definition skip_to_heading :: "pstr list \<Rightarrow> pstr list" where
  "skip_to_heading ls = dropWhile (\<lambda>l. \<not> is_heading l) ls"

text \<open>
  The outer \<open>while\<close> loop of \<open>replace_tasks_section\<close> on the lines from position
  \<open>i\<close> on, with the variables \<open>out\<close> and \<open>replaced\<close>.
\<close>

function replace_tasks_loop :: "pstr list \<Rightarrow> pstr \<Rightarrow> pstr list \<Rightarrow> bool \<Rightarrow> pstr list \<times> bool" where
  "replace_tasks_loop [] new out replaced = (out, replaced)"
| "replace_tasks_loop (line # rest) new out replaced =
     (if strip line = TASK_SECTION_HEADER then
        replace_tasks_loop (skip_to_heading rest) new (out @ [new]) True
      else if strip line = ABANDONED_SECTION_HEADER then
        replace_tasks_loop (skip_to_heading rest) new out replaced
      else replace_tasks_loop rest new (out @ [line]) replaced)"
  by pat_completeness auto
termination
  by (relation "measure (\<lambda>(ls, new, out, replaced). length ls)")
     (auto simp: skip_to_heading_def length_dropWhile_le less_Suc_eq_le)

text \<open>The list \<open>out\<close> as it is when \<open>replace_tasks_section\<close> joins it.\<close>

definition replace_tasks_out :: "pstr list \<Rightarrow> pstr \<Rightarrow> pstr list" where
  "replace_tasks_out ls new =
     (case replace_tasks_loop ls new [] False of
        (out, replaced) \<Rightarrow>
          if \<not> replaced then
            (if out \<noteq> [] \<and> strip (last out) \<noteq> [] then out @ [[]] else out) @ [new]
          else out)"

definition replace_tasks_section :: "pstr \<Rightarrow> pstr \<Rightarrow> pstr" where
  "replace_tasks_section content new_tasks_section =
     join_nl (replace_tasks_out (splitlines content) new_tasks_section)"

function replace_summary_loop :: "pstr list \<Rightarrow> pstr \<Rightarrow> pstr list \<Rightarrow> bool \<Rightarrow> pstr list \<times> bool" where
  "replace_summary_loop [] summary_text out replaced = (out, replaced)"
| "replace_summary_loop (line # rest) summary_text out replaced =
     (if strip line = SUMMARY_SECTION_HEADER then
        replace_summary_loop (skip_to_heading rest) summary_text
          (out @ [SUMMARY_SECTION_HEADER, [], strip summary_text]) True
      else replace_summary_loop rest summary_text (out @ [line]) replaced)"
  by pat_completeness auto
termination
  by (relation "measure (\<lambda>(ls, s, out, replaced). length ls)")
     (auto simp: skip_to_heading_def length_dropWhile_le less_Suc_eq_le)

definition replace_summary_out :: "pstr list \<Rightarrow> pstr \<Rightarrow> pstr list" where
  "replace_summary_out ls summary_text =
     (case replace_summary_loop ls summary_text [] False of
        (out, replaced) \<Rightarrow>
          if \<not> replaced then
            (if out \<noteq> [] \<and> strip (last out) \<noteq> [] then out @ [[]] else out)
              @ [SUMMARY_SECTION_HEADER, [], strip summary_text]
          else out)"

definition replace_summary_section :: "pstr \<Rightarrow> pstr \<Rightarrow> pstr" where
  "replace_summary_section content summary_text =
     join_nl (replace_summary_out (splitlines content) summary_text)"



section \<open>Dates\<close>

text \<open>
  A \<open>datetime.date\<close>: year, month and day. Python's dates have years from 1 to 9999,
  so \<open>isoformat\<close> (\<open>%04d-%02d-%02d\<close>) writes four, two and two digits.
\<close>

record date =
  year :: nat
  month :: nat
  day :: nat

definition digit :: "nat \<Rightarrow> nat" where
  "digit n = 48 + n mod 10"

definition isoformat :: "date \<Rightarrow> pstr" where
  "isoformat d =
     [digit (year d div 1000), digit (year d div 100), digit (year d div 10), digit (year d),
      45, digit (month d div 10), digit (month d), 45, digit (day d div 10), digit (day d)]"

definition is_leap :: "nat \<Rightarrow> bool" where
  "is_leap y \<longleftrightarrow> y mod 4 = 0 \<and> (y mod 100 \<noteq> 0 \<or> y mod 400 = 0)"

definition days_in_month :: "nat \<Rightarrow> nat \<Rightarrow> nat" where
  "days_in_month y m =
     (if m = 2 then (if is_leap y then 29 else 28)
      else if m = 4 \<or> m = 6 \<or> m = 9 \<or> m = 11 then 30 else 31)"

text \<open>The exceptions that the commands can raise.\<close>

datatype error = ValueError | OverflowError | RuntimeError | APIError | AttributeError

text \<open>\<open>d - timedelta(days=1)\<close>, which raises \<open>OverflowError\<close> on \<open>date.min\<close>.\<close>

definition minus_one_day :: "date \<Rightarrow> error + date" where
  "minus_one_day d =
     (if 1 < day d then Inr (d\<lparr>day := day d - 1\<rparr>)
      else if 1 < month d then
        Inr (d\<lparr>month := month d - 1, day := days_in_month (year d) (month d - 1)\<rparr>)
      else if 1 < year d then Inr \<lparr>year = year d - 1, month = 12, day = 31\<rparr>
      else Inl OverflowError)"

section \<open>The environment of the commands\<close>

text \<open>
  What \<open>cmd_update\<close> reads from a decoded JSON object: the four lists, each empty when
  the field is missing, null or empty, and of \<open>text_edits\<close> the entries that have both
  keys. A decoded value that is not an object has no \<open>get\<close>.
\<close>

record edits =
  completed_indices :: "int list"
  abandoned_indices :: "int list"
  new_tasks :: "pstr list"
  text_edits :: "(int \<times> pstr) list"

datatype json = NotAnObject | Object edits

text \<open>
  What the commands read from outside the program: the directory that
  \<open>get_base_dir\<close> returns, \<open>date.today()\<close>, \<open>date.fromisoformat\<close> (\<open>None\<close> where it
  raises \<open>ValueError\<close>), the variable \<open>OPENAI_API_KEY\<close>, the chat completion, which
  raises or returns the content of the first choice (\<open>None\<close> is a possible content), and
  \<open>json.loads\<close> (\<open>None\<close> where it raises \<open>JSONDecodeError\<close>).
\<close>

datatype reply = Raises | Content "pstr option"

record env =
  base_dir :: pstr
  today :: date
  fromisoformat :: "pstr \<Rightarrow> date option"
  api_key :: pstr
  chat :: "pstr \<Rightarrow> pstr \<Rightarrow> reply"
  json_loads :: "pstr \<Rightarrow> json option"

text \<open>
  The state that the commands change: the text files, by directory and file name, and
  the log of the chat completions requested, each with its \<open>system\<close> and \<open>user\<close>
  message. A file is the text that \<open>read_text\<close> returns for it and a missing file
  has no entry; \<open>write_text\<close> stores the text it is given.
\<close>

type_synonym path = "pstr \<times> pstr"

record world =
  files :: "path \<rightharpoonup> pstr"
  llm_calls :: "(pstr \<times> pstr) list"

definition path_for_date :: "pstr \<Rightarrow> date \<Rightarrow> path" where
  "path_for_date base d = (base, isoformat d @ [46, 109, 100])"

definition read_daily_md :: "world \<Rightarrow> pstr \<Rightarrow> date \<Rightarrow> pstr" where
  "read_daily_md w base d = (case files w (path_for_date base d) of None \<Rightarrow> [] | Some c \<Rightarrow> c)"

definition write_daily_md :: "world \<Rightarrow> pstr \<Rightarrow> date \<Rightarrow> pstr \<Rightarrow> world" where
  "write_daily_md w base d content = w\<lparr>files := (files w)(path_for_date base d \<mapsto> content)\<rparr>"

section \<open>llm.py\<close>

text \<open>
  \<open>call_system_user\<close>: \<open>_client\<close> raises \<open>RuntimeError\<close> when the key is blank,
  before any request; otherwise one completion is requested.
\<close>

definition call_system_user :: "env \<Rightarrow> world \<Rightarrow> pstr \<Rightarrow> pstr \<Rightarrow> (error + pstr) \<times> world" where
  "call_system_user e w system user =
     (if strip (api_key e) = [] then (Inl RuntimeError, w)
      else
        (let w' = w\<lparr>llm_calls := llm_calls w @ [(system, user)]\<rparr> in
         case chat e system user of
           Raises \<Rightarrow> (Inl APIError, w')
         | Content c \<Rightarrow> (Inr (strip (case c of None \<Rightarrow> [] | Some s \<Rightarrow> s)), w')))"

text \<open>The \<open>system\<close> prompt of \<open>generate_today_tasks\<close> (145 characters).\<close>

definition GENERATE_SYSTEM :: pstr where
  "GENERATE_SYSTEM =
     [20320, 26159, 27599, 26085, 26085, 31243, 21161, 25163, 12290, 26681, 25454, 12300,
      26152, 22825, 12301, 26410, 23436, 25104, 30340, 20107, 39033, 65292, 29983, 25104,
      12300, 20170, 22825, 12301, 30340, 20219, 21153, 21015, 34920, 12290, 10, 35201,
      27714, 65306, 10, 49, 46, 32, 26152, 22825, 26410, 23436, 25104, 30340, 20107, 39033,
      24517, 39035, 20840, 37096, 36801, 31227, 21040, 20170, 22825, 65292, 27599, 34892,
      26684, 24335, 65306, 45, 32, 91, 32, 93, 32, 20219, 21153, 25551, 36848, 10, 50, 46,
      32, 21482, 36755, 20986, 32, 77, 97, 114, 107, 100, 111, 119, 110, 65306, 24517,
      39035, 26377, 32, 34, 35, 35, 32, 20219, 21153, 34, 32, 26631, 39064, 65292, 19979,
      38754, 27599, 34892, 32, 45, 32, 91, 32, 93, 65292, 19981, 35201, 20195, 30721, 22359,
      25110, 22810, 20313, 35828, 26126, 10, 51, 46, 32, 19981, 35201, 28155, 21152, 21015,
      34920, 20197, 22806, 30340, 20854, 20182, 20219, 21153]"

text \<open>The literal parts of the \<open>user\<close> prompt of \<open>generate_today_tasks\<close> and the text used for an empty list.\<close>

definition GENERATE_USER_DATE :: pstr where
  "GENERATE_USER_DATE =
     [20170, 22825, 26085, 26399, 65306]"

definition GENERATE_USER_PENDING :: pstr where
  "GENERATE_USER_PENDING =
     [10, 10, 26152, 22825, 26410, 23436, 25104, 30340, 20107, 39033, 65288, 39035, 20840,
      37096, 36801, 31227, 21040, 20170, 22825, 65289, 65306, 10]"

definition GENERATE_NONE :: pstr where
  "GENERATE_NONE =
     [65288, 26080, 65289]"

definition generate_today_tasks :: "env \<Rightarrow> world \<Rightarrow> pstr list \<Rightarrow> pstr \<Rightarrow> (error + pstr) \<times> world" where
  "generate_today_tasks e w yesterday_pending_titles today_iso =
     (let pending_list =
            (if yesterday_pending_titles \<noteq> []
             then join_nl (map (\<lambda>t. [45, 32] @ t) yesterday_pending_titles)
             else GENERATE_NONE);
          user = GENERATE_USER_DATE @ today_iso @ GENERATE_USER_PENDING @ pending_list
      in call_system_user e w GENERATE_SYSTEM user)"

section \<open>cli.py: generate\<close>

text \<open>\<open>date.fromisoformat(date_str) if date_str else date.today()\<close>\<close>

definition date_of :: "env \<Rightarrow> pstr option \<Rightarrow> error + date" where
  "date_of e date_str =
     (case date_str of
        None \<Rightarrow> Inr (today e)
      | Some s \<Rightarrow>
          if s = [] then Inr (today e)
          else (case fromisoformat e s of None \<Rightarrow> Inl ValueError | Some d \<Rightarrow> Inr d))"

text \<open>
  \<open>cmd_generate\<close> returns the exception raised, if any, and the state it leaves; what
  it prints is not part of the state.
\<close>

definition cmd_generate :: "env \<Rightarrow> pstr option \<Rightarrow> world \<Rightarrow> error option \<times> world" where
  "cmd_generate e date_str w =
     (case date_of e date_str of
        Inl err \<Rightarrow> (Some err, w)
      | Inr today_d \<Rightarrow>
     (case minus_one_day today_d of
        Inl err \<Rightarrow> (Some err, w)
      | Inr yesterday \<Rightarrow>
     (let yesterday_md = read_daily_md w (base_dir e) yesterday;
          yesterday_tasks = parse_tasks_from_markdown yesterday_md;
          yesterday_pending = map title (filter is_pending yesterday_tasks);
          today_iso = isoformat today_d
      in
        if yesterday_pending = [] then
          (let empty_section = TASK_SECTION_HEADER @ [10, 10];
               existing = read_daily_md w (base_dir e) today_d;
               full = (if strip existing = [] then [35, 32] @ today_iso @ [10, 10] @ empty_section
                       else replace_tasks_section existing empty_section)
           in (None, write_daily_md w (base_dir e) today_d full))
        else
          (case generate_today_tasks e w yesterday_pending today_iso of
             (Inl err, w') \<Rightarrow> (Some err, w')
           | (Inr tasks_md0, w') \<Rightarrow>
               (let tasks_md = (if \<not> sublist TASK_SECTION_HEADER tasks_md0
                                then TASK_SECTION_HEADER @ [10, 10] @ tasks_md0 else tasks_md0);
                    existing = read_daily_md w' (base_dir e) today_d;
                    full = (if strip existing = [] then [35, 32] @ today_iso @ [10, 10] @ tasks_md @ [10]
                            else replace_tasks_section existing tasks_md)
                in (None, write_daily_md w' (base_dir e) today_d full))))))"

section \<open>llm.py: the update intent\<close>






section \<open>cli.py: update\<close>


section \<open>Auxiliary notions used by the statements\<close>

text \<open>
  The number of matched checklist lines of a document, counted as the specification
  describes the scan: one flag tells whether the scan is inside a section (Task or
  Abandoned), any other heading leaves it, and a line counts when it matches the
  checklist pattern inside a section.
\<close>

definition count_step :: "nat \<times> bool \<Rightarrow> pstr \<Rightarrow> nat \<times> bool" where
  "count_step st line =
     (case st of (n, inside) \<Rightarrow>
        if strip line = TASK_SECTION_HEADER \<or> strip line = ABANDONED_SECTION_HEADER then (n, True)
        else if startswith (strip line) HEADING_MARK then (n, False)
        else if inside \<and> TASK_LINE_match (strip line) \<noteq> None then (Suc n, inside)
        else (n, inside))"

definition matched_checklist_lines :: "pstr \<Rightarrow> nat" where
  "matched_checklist_lines content = fst (foldl count_step (0, False) (splitlines content))"

text \<open>The invariant of the parser's loop: the counter is the number of tasks, numbered from 1.\<close>

definition dense :: "pstate \<Rightarrow> bool" where
  "dense st \<longleftrightarrow> st_index st = int (length (st_tasks st)) \<and>
     map index (st_tasks st) = map int [1..<Suc (length (st_tasks st))]"

definition counts :: "pstate \<Rightarrow> nat \<times> bool" where
  "counts st = (length (st_tasks st), st_in_tasks st \<or> st_in_abandoned st)"

text \<open>A task without its \<open>raw_line\<close>: index, title and status.\<close>

definition triple :: "task \<Rightarrow> int \<times> pstr \<times> pstr" where
  "triple t = (index t, title t, status t)"

text \<open>A string without any of the line boundaries of \<open>str.splitlines\<close>.\<close>

definition no_linebreak :: "pstr \<Rightarrow> bool" where
  "no_linebreak l \<longleftrightarrow> (\<forall>c \<in> set l. \<not> is_linebreak c)"

text \<open>The number of lines of a text whose stripped form is the Task header.\<close>

definition count_task_headers :: "pstr \<Rightarrow> nat" where
  "count_task_headers s = length (filter (\<lambda>l. strip l = TASK_SECTION_HEADER) (splitlines s))"

text \<open>
  The index, title and status of the tasks of a list when they are numbered
  \<open>k + 1, k + 2, ...\<close> in their order.
\<close>

fun renumber :: "int \<Rightarrow> task list \<Rightarrow> (int \<times> pstr \<times> pstr) list" where
  "renumber k [] = []"
| "renumber k (t # ts) = (k + 1, title t, status t) # renumber (k + 1) ts"

text \<open>
  What the parser guarantees of a task: the title is stripped and has no line boundary,
  and the status is one of the three markers.
\<close>

definition wf_task :: "task \<Rightarrow> bool" where
  "wf_task t \<longleftrightarrow> strip (title t) = title t \<and> no_linebreak (title t)
     \<and> (status t = CHECK_PENDING \<or> status t = CHECK_DONE \<or> status t = CHECK_ABANDONED)"

definition all_wf :: "pstate \<Rightarrow> bool" where
  "all_wf st \<longleftrightarrow> (\<forall>t \<in> set (st_tasks st). wf_task t)"

text \<open>The parser numbers the tasks it collects from 1.\<close>

definition numbered :: "pstate \<Rightarrow> bool" where
  "numbered st \<longleftrightarrow> st_index st = int (length (st_tasks st))
     \<and> map triple (st_tasks st) = renumber 0 (st_tasks st)"

text \<open>
  The matched checklist lines of a document in the order of the scan, collected as the
  specification describes them: one flag tells whether the scan is inside a section
  (Task or Abandoned), any other \<open>## \<close> heading leaves it, and a line is collected when
  it matches the checklist pattern inside a section, whichever of the two it is.
\<close>

definition match_step :: "pstr list \<times> bool \<Rightarrow> pstr \<Rightarrow> pstr list \<times> bool" where
  "match_step st line =
     (case st of (ms, inside) \<Rightarrow>
        if strip line = TASK_SECTION_HEADER \<or> strip line = ABANDONED_SECTION_HEADER then (ms, True)
        else if startswith (strip line) HEADING_MARK then (ms, False)
        else if inside \<and> TASK_LINE_match (strip line) \<noteq> None then (ms @ [line], inside)
        else (ms, inside))"

definition in_section_matches :: "pstr \<Rightarrow> pstr list" where
  "in_section_matches content = fst (foldl match_step ([], False) (splitlines content))"

text \<open>The title that a matched line carries: group 2 of the pattern, stripped.\<close>

definition line_title :: "pstr \<Rightarrow> pstr" where
  "line_title l = (case TASK_LINE_match (strip l) of None \<Rightarrow> [] | Some (g1, g2) \<Rightarrow> strip g2)"

text \<open>
  The lines of a list numbered \<open>1, 2, ...\<close> in their order, each with its title and
  its text without trailing white space; and the same three components of a task.
\<close>

definition scan_order :: "pstr list \<Rightarrow> (int \<times> pstr \<times> pstr) list" where
  "scan_order ms = map (\<lambda>(k, l). (int (Suc k), line_title l, rstrip l)) (enumerate 0 ms)"

definition located :: "task \<Rightarrow> int \<times> pstr \<times> pstr" where
  "located t = (index t, title t, raw_line t)"

text \<open>The parser's state and the scan of the specification, side by side.\<close>

definition tied :: "pstate \<Rightarrow> pstr list \<times> bool \<Rightarrow> bool" where
  "tied st p \<longleftrightarrow> snd p = (st_in_tasks st \<or> st_in_abandoned st)
     \<and> st_index st = int (length (fst p))
     \<and> map located (st_tasks st) = scan_order (fst p)"

text \<open>
  The sections that the editors recognize, as the specification names them: a line is
  a recognized header when it is the Task, Abandoned or Summary header once stripped.
  A scan of the lines is inside a recognized section after such a header and until the
  next \<open>## \<close> heading that is not one; before the first heading it is outside.
\<close>

definition recognized :: "pstr \<Rightarrow> bool" where
  "recognized l \<longleftrightarrow> strip l = TASK_SECTION_HEADER \<or> strip l = ABANDONED_SECTION_HEADER
     \<or> strip l = SUMMARY_SECTION_HEADER"

definition section_step :: "bool \<Rightarrow> pstr \<Rightarrow> bool" where
  "section_step inside l = (if recognized l then True else if is_heading l then False else inside)"

definition inside_from :: "bool \<Rightarrow> pstr list \<Rightarrow> bool" where
  "inside_from b ls = foldl section_step b ls"

definition inside_section :: "pstr list \<Rightarrow> bool" where
  "inside_section ls = inside_from False ls"


section \<open>Evaluation on concrete documents\<close>

lemmas storage_defs =
  TASK_SECTION_HEADER_def ABANDONED_SECTION_HEADER_def SUMMARY_SECTION_HEADER_def
  HEADING_MARK_def splitlines_def is_linebreak_def isspace_def strip_def lstrip_def rstrip_def
  startswith_def parse_tasks_from_markdown_def parse_lines_def parse_init_def parse_step_def
  parse_task_line_def TASK_LINE_match_def lower_group_def CHECK_PENDING_def CHECK_DONE_def
  CHECK_ABANDONED_def is_abandoned_def is_pending_def is_done_def to_markdown_def

section \<open>The serializer\<close>

lemma append_tasks_eq: "append_tasks ls ts = ls @ map to_markdown ts"
  unfolding append_tasks_def by (induction ts arbitrary: ls) auto

lemma to_markdown_not_header:
  "to_markdown t \<noteq> ABANDONED_SECTION_HEADER"
  "to_markdown t \<noteq> TASK_SECTION_HEADER"
  "to_markdown t \<noteq> []"
  by (simp_all add: to_markdown_def ABANDONED_SECTION_HEADER_def TASK_SECTION_HEADER_def)

text \<open>
  C6 (serializer shape). The section text is the Task header, an empty line and the
  canonical lines of the tasks that are not abandoned, in their order; followed, exactly
  when some task is abandoned, by an empty line, the Abandoned header, an empty line and
  the canonical lines of the abandoned tasks. The Abandoned header is among the emitted
  lines if and only if some task is abandoned.
\<close>

theorem serializer_shape:
  "serialize_tasks_to_section ts =
     join_nl ([TASK_SECTION_HEADER, []] @ map to_markdown (filter (\<lambda>t. \<not> is_abandoned t) ts)
              @ (if \<exists>t \<in> set ts. is_abandoned t
                 then [[], ABANDONED_SECTION_HEADER, []] @ map to_markdown (filter is_abandoned ts)
                 else []))
   \<and> (ABANDONED_SECTION_HEADER \<in> set (serialize_lines ts) \<longleftrightarrow> (\<exists>t \<in> set ts. is_abandoned t))"
proof -
  have ne: "filter is_abandoned ts \<noteq> [] \<longleftrightarrow> (\<exists>t \<in> set ts. is_abandoned t)"
    by (simp add: filter_empty_conv)
  have hdr: "TASK_SECTION_HEADER \<noteq> ABANDONED_SECTION_HEADER"
    by (simp add: ABANDONED_SECTION_HEADER_def TASK_SECTION_HEADER_def)
  have notin: "ABANDONED_SECTION_HEADER \<notin> to_markdown ` S" for S
    using to_markdown_not_header(1) by (metis imageE)
  show ?thesis
    using ne hdr notin
    by (auto simp: serialize_tasks_to_section_def serialize_lines_def Let_def append_tasks_eq
          ABANDONED_SECTION_HEADER_def)
qed

text \<open>
  The tasks \<open>a\<close> (pending) and \<open>b\<close> (abandoned) give the Task header, an empty line,
  \<open>- [ ] a\<close>, an empty line, the Abandoned header, an empty line and \<open>- [~] b\<close>; the
  empty list gives the Task header and a line feed.
\<close>

theorem serializer_shape_witness:
  "serialize_tasks_to_section
     [\<lparr>index = 1, title = [97], status = [32], raw_line = []\<rparr>,
      \<lparr>index = 2, title = [98], status = [126], raw_line = []\<rparr>] =
     [35, 35, 32, 20219, 21153, 10, 10, 45, 32, 91, 32, 93, 32, 97, 10, 10,
      35, 35, 32, 24050, 24223, 24323, 10, 10, 45, 32, 91, 126, 93, 32, 98]
   \<and> serialize_tasks_to_section [] = [35, 35, 32, 20219, 21153, 10]"
  using serializer_shape [of "[\<lparr>index = 1, title = [97], status = [32], raw_line = []\<rparr>,
      \<lparr>index = 2, title = [98], status = [126], raw_line = []\<rparr>]"]
    serializer_shape [of "[]"]
  by (simp add: storage_defs)

section \<open>The parser: indices\<close>

lemma parse_task_line_index: "parse_task_line line i = Some t \<Longrightarrow> index t = i"
  by (auto simp: parse_task_line_def split: option.splits)

lemma parse_task_line_None:
  "parse_task_line line i = None \<longleftrightarrow> TASK_LINE_match (strip line) = None"
  by (auto simp: parse_task_line_def split: option.splits)

lemma dense_step: "dense st \<Longrightarrow> dense (parse_step st line)"
  by (auto simp: dense_def parse_step_def dest: parse_task_line_index split: option.splits)

lemma dense_foldl: "dense st \<Longrightarrow> dense (foldl parse_step st ls)"
  by (induction ls arbitrary: st) (auto simp: dense_step)

lemma dense_init: "dense parse_init"
  by (simp add: dense_def parse_init_def)

lemma counts_step: "counts (parse_step st line) = count_step (counts st) line"
proof (cases "parse_task_line line (st_index st + 1)")
  case None
  then have "TASK_LINE_match (strip line) = None" by (simp add: parse_task_line_None)
  with None show ?thesis by (simp add: counts_def parse_step_def count_step_def)
next
  case (Some t)
  then have "TASK_LINE_match (strip line) \<noteq> None"
    using parse_task_line_None[of line "st_index st + 1"] by simp
  with Some show ?thesis by (simp add: counts_def parse_step_def count_step_def)
qed

lemma counts_foldl: "counts (foldl parse_step st ls) = foldl count_step (counts st) ls"
  by (induction ls arbitrary: st) (auto simp: counts_step)

lemma scan_order_snoc:
  "scan_order (ms @ [l]) = scan_order ms @ [(int (Suc (length ms)), line_title l, rstrip l)]"
  by (simp add: scan_order_def enumerate_append_eq)

lemma parse_task_line_located:
  assumes "parse_task_line line i = Some t"
  shows "index t = i" "title t = line_title line" "raw_line t = rstrip line"
  using assms by (auto simp: parse_task_line_def line_title_def split: option.splits)

lemma tied_step:
  assumes "tied st p"
  shows "tied (parse_step st line) (match_step p line)"
proof (cases "parse_task_line line (st_index st + 1)")
  case None
  then have "TASK_LINE_match (strip line) = None" by (simp add: parse_task_line_None)
  with None assms show ?thesis
    by (cases p) (simp add: tied_def parse_step_def match_step_def)
next
  case (Some t)
  then have m: "TASK_LINE_match (strip line) \<noteq> None"
    using parse_task_line_None[of line "st_index st + 1"] by simp
  obtain ms b where p: "p = (ms, b)" by (cases p)
  have q: "b = (st_in_tasks st \<or> st_in_abandoned st)" "st_index st = int (length ms)"
    "map located (st_tasks st) = scan_order ms"
    using assms p by (simp_all add: tied_def)
  show ?thesis
  proof (cases "strip line = TASK_SECTION_HEADER \<or> strip line = ABANDONED_SECTION_HEADER
      \<or> startswith (strip line) HEADING_MARK \<or> \<not> b")
    case True
    then show ?thesis using q p by (auto simp: tied_def parse_step_def match_step_def)
  next
    case False
    let ?u = "if st_in_abandoned st
        then \<lparr>index = index t, title = title t, status = CHECK_ABANDONED, raw_line = raw_line t\<rparr>
        else t"
    have s: "parse_step st line = st\<lparr>st_index := st_index st + 1, st_tasks := st_tasks st @ [?u]\<rparr>"
      using False q(1) Some by (simp add: parse_step_def)
    have k: "match_step p line = (ms @ [line], b)"
      using False m p by (simp add: match_step_def)
    have u: "located ?u = (int (Suc (length ms)), line_title line, rstrip line)"
      using parse_task_line_located[OF Some] q(2) by (simp add: located_def)
    show ?thesis unfolding s k using q u False
      by (simp add: tied_def scan_order_snoc)
  qed
qed

lemma tied_foldl:
  "tied st p \<Longrightarrow> tied (foldl parse_step st ls) (foldl match_step p ls)"
  by (induction ls arbitrary: st p) (auto simp: tied_step)

lemma tied_init: "tied parse_init ([], False)"
  by (simp add: tied_def parse_init_def scan_order_def)

lemma match_count_step:
  "(length (fst (match_step p line)), snd (match_step p line))
     = count_step (length (fst p), snd p) line"
  by (cases p) (auto simp: match_step_def count_step_def)

lemma match_count_foldl:
  "(length (fst (foldl match_step p ls)), snd (foldl match_step p ls))
     = foldl count_step (length (fst p), snd p) ls"
proof (induction ls arbitrary: p)
  case Nil then show ?case by simp
next
  case (Cons l ls)
  show ?case using Cons[of "match_step p l"] by (simp add: match_count_step)
qed

lemma matches_count: "length (in_section_matches D) = matched_checklist_lines D"
  using match_count_foldl[of "([], False)" "splitlines D"]
  by (simp add: in_section_matches_def matched_checklist_lines_def)
     (metis fst_conv)

text \<open>
  C2 (index density). For every document the indices of the parsed tasks are
  \<open>1, 2, ..., N\<close> in this order, where \<open>N\<close> is the number of checklist lines matched
  inside the Task and Abandoned sections, and no index occurs twice. The tasks of both
  kinds of section share the one sequence in the order of the scan: the \<open>k\<close>-th task
  has the index \<open>k\<close>, and its title and raw line are those of the \<open>k\<close>-th matched
  line of the document, whichever section that line stands in.
\<close>

theorem index_density:
  "map index (parse_tasks_from_markdown D) = map int [1..<Suc (matched_checklist_lines D)]
   \<and> length (parse_tasks_from_markdown D) = matched_checklist_lines D
   \<and> distinct (map index (parse_tasks_from_markdown D))
   \<and> length (in_section_matches D) = matched_checklist_lines D
   \<and> map located (parse_tasks_from_markdown D) = scan_order (in_section_matches D)"
proof -
  let ?st = "foldl parse_step parse_init (splitlines D)"
  have d: "dense ?st" by (rule dense_foldl) (rule dense_init)
  have "counts ?st = foldl count_step (0, False) (splitlines D)"
    by (simp add: counts_foldl) (simp add: counts_def parse_init_def)
  then have "fst (counts ?st) = matched_checklist_lines D"
    by (simp only: matched_checklist_lines_def)
  then have n: "length (st_tasks ?st) = matched_checklist_lines D"
    by (simp add: counts_def)
  have m: "map index (st_tasks ?st) = map int [1..<Suc (matched_checklist_lines D)]"
    using d n by (simp add: dense_def)
  have di: "distinct (map int [1..<Suc (matched_checklist_lines D)])"
    by (simp add: distinct_map)
  have "tied ?st (foldl match_step ([], False) (splitlines D))"
    by (rule tied_foldl) (rule tied_init)
  then have t: "map located (st_tasks ?st) = scan_order (in_section_matches D)"
    by (simp add: tied_def in_section_matches_def)
  from m n di t matches_count[of D] show ?thesis
    by (simp add: parse_tasks_from_markdown_def parse_lines_def)
qed

text \<open>
  The document with the Abandoned section first, holding \<open>- [~] a\<close>, and the Task
  section after it, holding \<open>- [ ] b\<close>: the matched lines are these two in this
  order, the task of the first has the index 1 and the task of the second the index 2.
\<close>

theorem index_density_witness:
  "in_section_matches
     (ABANDONED_SECTION_HEADER @ [10, 45, 32, 91, 126, 93, 32, 97, 10] @ TASK_SECTION_HEADER
        @ [10, 45, 32, 91, 32, 93, 32, 98])
     = [[45, 32, 91, 126, 93, 32, 97], [45, 32, 91, 32, 93, 32, 98]]
   \<and> map located (parse_tasks_from_markdown
     (ABANDONED_SECTION_HEADER @ [10, 45, 32, 91, 126, 93, 32, 97, 10] @ TASK_SECTION_HEADER
        @ [10, 45, 32, 91, 32, 93, 32, 98]))
     = [(1, [97], [45, 32, 91, 126, 93, 32, 97]), (2, [98], [45, 32, 91, 32, 93, 32, 98])]
   \<and> map index (parse_tasks_from_markdown
     (ABANDONED_SECTION_HEADER @ [10, 45, 32, 91, 126, 93, 32, 97, 10] @ TASK_SECTION_HEADER
        @ [10, 45, 32, 91, 32, 93, 32, 98])) = [1, 2]"
proof -
  let ?D = "ABANDONED_SECTION_HEADER @ [10, 45, 32, 91, 126, 93, 32, 97, 10]
      @ TASK_SECTION_HEADER @ [10, 45, 32, 91, 32, 93, 32, 98]"
  have s: "in_section_matches ?D = [[45, 32, 91, 126, 93, 32, 97], [45, 32, 91, 32, 93, 32, 98]]"
    by (simp add: storage_defs in_section_matches_def match_step_def)
  have o: "scan_order [[45, 32, 91, 126, 93, 32, 97], [45, 32, 91, 32, 93, 32, 98]]
      = [(1, [97], [45, 32, 91, 126, 93, 32, 97]), (2, [98], [45, 32, 91, 32, 93, 32, 98])]"
    by (simp add: storage_defs scan_order_def line_title_def enumerate_eq_zip upt_rec)
  have n: "matched_checklist_lines ?D = 2"
    by (simp add: storage_defs matched_checklist_lines_def count_step_def)
  have u: "map int [1..<Suc 2] = [1, 2]" by (simp add: upt_rec)
  note d = index_density [of ?D]
  have 1: "map index (parse_tasks_from_markdown ?D) = [1, 2]"
    using d unfolding n u by (rule conjunct1)
  have 2: "map located (parse_tasks_from_markdown ?D)
     = [(1, [97], [45, 32, 91, 126, 93, 32, 97]), (2, [98], [45, 32, 91, 32, 93, 32, 98])]"
    using d unfolding s o by simp
  from s 1 2 show ?thesis by (simp only: simp_thms)
qed

section \<open>The parser: sections\<close>

lemma rstrip_prefix: "\<exists>w. s = rstrip s @ w"
proof -
  have "rev s = takeWhile isspace (rev s) @ dropWhile isspace (rev s)" by simp
  then have "s = rev (dropWhile isspace (rev s)) @ rev (takeWhile isspace (rev s))"
    by (metis rev_append rev_rev_ident)
  then show ?thesis unfolding rstrip_def by blast
qed

lemma strip_hd_not_space: "strip l = c # r \<Longrightarrow> \<not> isspace c"
proof -
  assume a: "strip l = c # r"
  obtain w where w: "lstrip l = rstrip (lstrip l) @ w" using rstrip_prefix by blast
  from a w have "dropWhile isspace l = c # (r @ w)" by (simp add: strip_def lstrip_def)
  then show ?thesis by (metis hd_dropWhile list.sel(1) list.distinct(1))
qed

lemma dropWhile_strip: "dropWhile isspace (strip l) = strip l"
  by (cases "strip l") (auto dest: strip_hd_not_space)

lemma match_starts_dash:
  "TASK_LINE_match (strip l) = Some g \<Longrightarrow> \<exists>r. strip l = 45 # r"
  unfolding TASK_LINE_match_def dropWhile_strip
  by (auto split: list.splits if_splits)

lemma match_not_heading:
  assumes "TASK_LINE_match (strip l) = Some g"
  shows "strip l \<noteq> TASK_SECTION_HEADER" "strip l \<noteq> ABANDONED_SECTION_HEADER"
    "\<not> startswith (strip l) HEADING_MARK"
  using match_starts_dash[OF assms]
  by (auto simp: TASK_SECTION_HEADER_def ABANDONED_SECTION_HEADER_def HEADING_MARK_def startswith_def)

lemma tasks_step_mono: "\<exists>more. st_tasks (parse_step st l) = st_tasks st @ more"
  by (auto simp: parse_step_def split: option.splits)

lemma tasks_foldl_mono: "\<exists>more. st_tasks (foldl parse_step st ls) = st_tasks st @ more"
proof (induction ls arbitrary: st)
  case Nil then show ?case by simp
next
  case (Cons l ls)
  obtain m1 where m1: "st_tasks (parse_step st l) = st_tasks st @ m1"
    using tasks_step_mono by blast
  obtain m2 where "st_tasks (foldl parse_step (parse_step st l) ls) = st_tasks (parse_step st l) @ m2"
    using Cons.IH by blast
  with m1 show ?case by simp
qed

lemma abandoned_step:
  assumes "st_in_abandoned st" "TASK_LINE_match (strip line) = Some (g1, g2)"
  shows "\<exists>t. st_tasks (parse_step st line) = st_tasks st @ [t] \<and> status t = CHECK_ABANDONED
     \<and> title t = strip g2 \<and> index t = st_index st + 1"
  using assms match_not_heading[OF assms(2)]
  by (simp add: parse_step_def parse_task_line_def)

lemma closed_step:
  assumes "\<not> st_in_tasks st" "\<not> st_in_abandoned st"
    "strip l \<noteq> TASK_SECTION_HEADER" "strip l \<noteq> ABANDONED_SECTION_HEADER"
  shows "parse_step st l = st"
  using assms by (cases st) (simp add: parse_step_def)

lemma closed_foldl:
  assumes "\<not> st_in_tasks st" "\<not> st_in_abandoned st"
    "\<forall>l \<in> set ls. strip l \<noteq> TASK_SECTION_HEADER \<and> strip l \<noteq> ABANDONED_SECTION_HEADER"
  shows "foldl parse_step st ls = st"
  using assms by (induction ls) (simp_all add: closed_step)

lemma heading_step:
  assumes "is_heading h" "strip h \<noteq> TASK_SECTION_HEADER" "strip h \<noteq> ABANDONED_SECTION_HEADER"
  shows "parse_step st h = st\<lparr>st_in_tasks := False, st_in_abandoned := False\<rparr>"
  using assms by (simp add: parse_step_def is_heading_def)

text \<open>
  C5 as the code has it. A line whose stripped text starts with \<open>"## "\<close> (a
  level-two heading marker and a space) and that is neither the Task nor the Abandoned
  header clears both flags: after it and any lines up to the next Task or Abandoned
  header the tasks collected are those collected before it, both flags are clear, and
  the parse result is the one of the document without those lines. Headings of other
  levels are ordinary lines to the parser.
\<close>

theorem heading_closes_section:
  assumes "splitlines D = pre @ h # mid @ post"
    and "is_heading h" "strip h \<noteq> TASK_SECTION_HEADER" "strip h \<noteq> ABANDONED_SECTION_HEADER"
    and "\<forall>l \<in> set mid. strip l \<noteq> TASK_SECTION_HEADER \<and> strip l \<noteq> ABANDONED_SECTION_HEADER"
  shows "parse_tasks_from_markdown D = parse_lines (pre @ h # post)
     \<and> st_tasks (foldl parse_step parse_init (pre @ h # mid)) = parse_lines pre
     \<and> \<not> st_in_tasks (foldl parse_step parse_init (pre @ h # mid))
     \<and> \<not> st_in_abandoned (foldl parse_step parse_init (pre @ h # mid))"
proof -
  let ?s = "foldl parse_step parse_init pre"
  let ?c = "?s\<lparr>st_in_tasks := False, st_in_abandoned := False\<rparr>"
  have h: "parse_step ?s h = ?c" using assms(2-4) by (rule heading_step)
  have m: "foldl parse_step ?c mid = ?c" using assms(5) by (intro closed_foldl) simp_all
  show ?thesis
    by (simp add: parse_tasks_from_markdown_def parse_lines_def assms(1) h m)
qed

text \<open>
  The Task header, \<open>- [ ] a\<close>, the heading \<open>## N\<close> and \<open>- [ ] b\<close>: only \<open>a\<close>
  is parsed.
\<close>

theorem heading_closes_section_witness:
  "parse_tasks_from_markdown
     (TASK_SECTION_HEADER @ [10, 45, 32, 91, 32, 93, 32, 97, 10, 35, 35, 32, 78, 10,
        45, 32, 91, 32, 93, 32, 98])
   = parse_lines ([TASK_SECTION_HEADER, [45, 32, 91, 32, 93, 32, 97]] @ [35, 35, 32, 78] # [])
   \<and> map title (parse_lines ([TASK_SECTION_HEADER, [45, 32, 91, 32, 93, 32, 97]]
        @ [35, 35, 32, 78] # [])) = [[97]]"
proof -
  have "parse_tasks_from_markdown
     (TASK_SECTION_HEADER @ [10, 45, 32, 91, 32, 93, 32, 97, 10, 35, 35, 32, 78, 10,
        45, 32, 91, 32, 93, 32, 98])
   = parse_lines ([TASK_SECTION_HEADER, [45, 32, 91, 32, 93, 32, 97]] @ [35, 35, 32, 78] # [])"
    by (rule conjunct1, rule heading_closes_section [where mid = "[[45, 32, 91, 32, 93, 32, 98]]"])
       (simp_all add: storage_defs is_heading_def)
  moreover have "map title (parse_lines ([TASK_SECTION_HEADER, [45, 32, 91, 32, 93, 32, 97]]
        @ [35, 35, 32, 78] # [])) = [[97]]"
    by (simp add: storage_defs)
  ultimately show ?thesis by (rule conjI)
qed

text \<open>
  C5 as stated fails for headings of other levels: in the document made of the Task
  header, the level-three heading \<open>### N\<close> and the line \<open>- [ ] a\<close>, the checklist line
  comes after an unrelated heading and before any other Task or Abandoned header, and
  it is parsed.
\<close>

theorem any_heading_closure_counterexample:
  "parse_tasks_from_markdown
     (TASK_SECTION_HEADER @ [10, 35, 35, 35, 32, 78, 10, 45, 32, 91, 32, 93, 32, 97]) =
   [\<lparr>index = 1, title = [97], status = CHECK_PENDING,
     raw_line = [45, 32, 91, 32, 93, 32, 97]\<rparr>]"
  by (simp add: storage_defs)

section \<open>The section editor: what the loop of \<open>replace_tasks_section\<close> keeps\<close>

lemma header_is_heading:
  "strip l = TASK_SECTION_HEADER \<Longrightarrow> is_heading l"
  "strip l = ABANDONED_SECTION_HEADER \<Longrightarrow> is_heading l"
  "strip l = SUMMARY_SECTION_HEADER \<Longrightarrow> is_heading l"
  by (simp_all add: is_heading_def startswith_def HEADING_MARK_def TASK_SECTION_HEADER_def
      ABANDONED_SECTION_HEADER_def SUMMARY_SECTION_HEADER_def)

lemma skip_length: "length (skip_to_heading ls) \<le> length ls"
  by (simp add: skip_to_heading_def length_dropWhile_le)

lemma skip_split:
  assumes "is_heading h" "post = [] \<or> is_heading (hd post)"
  shows "\<exists>p. length p \<le> length pre \<and> skip_to_heading (pre @ h # X) = p @ h # X
     \<and> skip_to_heading (pre @ post) = p @ post"
proof (induction pre)
  case Nil
  have "skip_to_heading post = post" using assms(2)
    by (cases post) (auto simp: skip_to_heading_def)
  then show ?case using assms(1) by (auto simp: skip_to_heading_def)
next
  case (Cons l pre)
  show ?case
  proof (cases "is_heading l")
    case True
    then have "skip_to_heading ((l # pre) @ h # X) = (l # pre) @ h # X"
      "skip_to_heading ((l # pre) @ post) = (l # pre) @ post"
      by (simp_all add: skip_to_heading_def)
    then show ?thesis by blast
  next
    case False
    then have "skip_to_heading ((l # pre) @ h # X) = skip_to_heading (pre @ h # X)"
      "skip_to_heading ((l # pre) @ post) = skip_to_heading (pre @ post)"
      by (simp_all add: skip_to_heading_def)
    with Cons.IH show ?thesis by (metis le_SucI length_Cons)
  qed
qed

lemma skip_body:
  assumes "\<forall>l \<in> set body. \<not> is_heading l" "post = [] \<or> is_heading (hd post)"
  shows "skip_to_heading (body @ post) = post"
proof -
  have "skip_to_heading post = post" using assms(2)
    by (cases post) (auto simp: skip_to_heading_def)
  then show ?thesis using assms(1)
    by (simp add: skip_to_heading_def dropWhile_append2)
qed

lemma abandoned_block_loop:
  assumes "strip h = ABANDONED_SECTION_HEADER" "\<forall>l \<in> set body. \<not> is_heading l"
    "post = [] \<or> is_heading (hd post)"
  shows "replace_tasks_loop (pre @ h # body @ post) new out r
       = replace_tasks_loop (pre @ post) new out r"
proof (induction "length pre" arbitrary: pre out r rule: less_induct)
  case less
  have hh: "is_heading h" using assms(1) by (rule header_is_heading)
  have nt: "strip h \<noteq> TASK_SECTION_HEADER" using assms(1)
    by (simp add: TASK_SECTION_HEADER_def ABANDONED_SECTION_HEADER_def)
  show ?case
  proof (cases pre)
    case Nil
    then show ?thesis using assms nt by (simp add: skip_body)
  next
    case (Cons l pre')
    obtain p where p: "length p \<le> length pre'"
      "skip_to_heading (pre' @ h # body @ post) = p @ h # body @ post"
      "skip_to_heading (pre' @ post) = p @ post"
      using skip_split[OF hh assms(3)] by blast
    have lp: "length p < length pre" using p(1) Cons by simp
    have lp': "length pre' < length pre" using Cons by simp
    show ?thesis
      using less[OF lp] less[OF lp'] p(2,3) Cons by simp
  qed
qed

lemma loop_elems:
  "set (fst (replace_tasks_loop ls new out r)) \<subseteq>
     set out \<union> {new} \<union> {l \<in> set ls. strip l \<noteq> TASK_SECTION_HEADER \<and> strip l \<noteq> ABANDONED_SECTION_HEADER}"
proof (induction ls new out r rule: replace_tasks_loop.induct)
  case (1 new out replaced)
  then show ?case by auto
next
  case (2 line rest new out replaced)
  have s: "set (skip_to_heading rest) \<subseteq> set rest"
    by (auto simp: skip_to_heading_def dest: set_dropWhileD)
  show ?case
  proof (cases "strip line = TASK_SECTION_HEADER")
    case True
    with 2(1) s show ?thesis by auto
  next
    case False
    show ?thesis
    proof (cases "strip line = ABANDONED_SECTION_HEADER")
      case True
      with False 2(2) s show ?thesis by auto
    next
      case F2: False
      with False 2(3) show ?thesis by auto
    qed
  qed
qed

text \<open>
  C10. An Abandoned section, that is a line \<open>h\<close> whose stripped text is the Abandoned
  header and the lines \<open>body\<close> after it up to the next \<open>"## "\<close> line (or the end),
  is removed wherever it stands in the document: the result is the one computed from
  the lines without \<open>h\<close> and \<open>body\<close>, whether or not a Task header occurs before or
  after it or at all. No line of the result other than the new section text is an
  Abandoned header.
\<close>

theorem abandoned_section_removed:
  assumes "splitlines D = pre @ h # body @ post"
    and "strip h = ABANDONED_SECTION_HEADER"
    and "\<forall>l \<in> set body. \<not> is_heading l"
    and "post = [] \<or> is_heading (hd post)"
  shows "replace_tasks_section D new = join_nl (replace_tasks_out (pre @ post) new)
     \<and> (\<forall>e \<in> set (replace_tasks_out (splitlines D) new).
          e = new \<or> e = [] \<or> (e \<in> set (splitlines D) \<and> strip e \<noteq> ABANDONED_SECTION_HEADER))"
proof
  show "replace_tasks_section D new = join_nl (replace_tasks_out (pre @ post) new)"
    by (simp add: replace_tasks_section_def replace_tasks_out_def assms(1)
        abandoned_block_loop[OF assms(2-4)])
next
  let ?L = "splitlines D"
  obtain out r where lr: "replace_tasks_loop ?L new [] False = (out, r)" by force
  have "set out \<subseteq> {new} \<union> {l \<in> set ?L. strip l \<noteq> TASK_SECTION_HEADER \<and> strip l \<noteq> ABANDONED_SECTION_HEADER}"
    using loop_elems[of ?L new "[]" False] lr by simp
  then show "\<forall>e \<in> set (replace_tasks_out ?L new).
          e = new \<or> e = [] \<or> (e \<in> set ?L \<and> strip e \<noteq> ABANDONED_SECTION_HEADER)"
    by (auto simp: replace_tasks_out_def lr)
qed

text \<open>
  A document without a Task header: the line \<open>a\<close>, an Abandoned section holding
  \<open>- [~] x\<close> and the heading \<open>## N\<close>. The Abandoned section is deleted and the new
  text is appended after an empty line.
\<close>

theorem abandoned_section_removed_witness:
  "replace_tasks_section
     ([97, 10] @ ABANDONED_SECTION_HEADER @ [10, 45, 32, 91, 126, 93, 32, 120, 10, 35, 35, 32, 78])
     TASK_SECTION_HEADER
   = [97, 10, 35, 35, 32, 78, 10, 10] @ TASK_SECTION_HEADER"
proof -
  have "replace_tasks_section
     ([97, 10] @ ABANDONED_SECTION_HEADER @ [10, 45, 32, 91, 126, 93, 32, 120, 10, 35, 35, 32, 78])
     TASK_SECTION_HEADER
   = join_nl (replace_tasks_out ([[97]] @ [[35, 35, 32, 78]]) TASK_SECTION_HEADER)"
    by (rule conjunct1,
        rule abandoned_section_removed [where h = ABANDONED_SECTION_HEADER
          and body = "[[45, 32, 91, 126, 93, 32, 120]]"])
       (simp_all add: storage_defs is_heading_def)
  also have "\<dots> = [97, 10, 35, 35, 32, 78, 10, 10] @ TASK_SECTION_HEADER"
    by (simp add: replace_tasks_out_def storage_defs)
  finally show ?thesis .
qed

section \<open>The section editor: other sections\<close>

lemma join_nl_append:
  "a \<noteq> [] \<Longrightarrow> b \<noteq> [] \<Longrightarrow> join_nl (a @ b) = join_nl a @ 10 # join_nl b"
proof (induction a rule: join_nl.induct)
  case 1 then show ?case by simp
next
  case (2 l) then show ?case by (cases b) simp_all
next
  case (3 l m ls) then show ?case by simp
qed

lemma join_nl_sublist: "m \<noteq> [] \<Longrightarrow> sublist (join_nl m) (join_nl (a @ m @ b))"
proof -
  assume m: "m \<noteq> []"
  have 1: "sublist (join_nl m) (join_nl (m @ b))"
    by (cases "b = []") (simp_all add: join_nl_append m)
  show ?thesis
  proof (cases "a = []")
    case True with 1 show ?thesis by simp
  next
    case False
    then have "join_nl (a @ m @ b) = join_nl a @ 10 # join_nl (m @ b)"
      using m by (simp add: join_nl_append)
    moreover obtain u v where "join_nl (m @ b) = u @ join_nl m @ v"
      using 1 unfolding sublist_def by blast
    ultimately have "join_nl (a @ m @ b) = (join_nl a @ 10 # u) @ join_nl m @ v" by simp
    then show ?thesis unfolding sublist_def by blast
  qed
qed

lemma tasks_loop_acc: "\<exists>m. fst (replace_tasks_loop ls new out r) = out @ m"
  by (induction ls new out r rule: replace_tasks_loop.induct) (auto split: if_splits)

lemma summary_loop_acc: "\<exists>m. fst (replace_summary_loop ls s out r) = out @ m"
  by (induction ls s out r rule: replace_summary_loop.induct) (auto split: if_splits)

lemma recognized_heading: "recognized l \<Longrightarrow> is_heading l"
  using header_is_heading by (auto simp: recognized_def)

lemma inside_from_Cons: "inside_from b (l # ls) = inside_from (section_step b l) ls"
  by (simp add: inside_from_def)

lemma section_step_heading: "is_heading l \<Longrightarrow> section_step b l = section_step True l"
  by (simp add: section_step_def)

lemma section_step_body: "\<not> is_heading l \<Longrightarrow> section_step b l = b"
  using recognized_heading by (auto simp: section_step_def)

lemma skip_inside:
  assumes "(B \<noteq> [] \<and> is_heading (hd B)) \<or> \<not> inside_from True pre"
  shows "\<exists>p. length p \<le> length pre \<and> skip_to_heading (pre @ B @ post) = p @ B @ post
     \<and> ((B \<noteq> [] \<and> is_heading (hd B)) \<or> (\<forall>b. \<not> inside_from b p))"
  using assms
proof (induction pre)
  case Nil
  then have h: "B \<noteq> [] \<and> is_heading (hd B)" by (simp add: inside_from_def)
  then have "skip_to_heading (B @ post) = B @ post"
    by (cases B) (simp_all add: skip_to_heading_def)
  with h show ?case by auto
next
  case (Cons l pre)
  show ?case
  proof (cases "is_heading l")
    case True
    have s: "skip_to_heading ((l # pre) @ B @ post) = (l # pre) @ B @ post"
      using True by (simp add: skip_to_heading_def)
    have "inside_from b (l # pre) = inside_from True (l # pre)" for b
      using section_step_heading[OF True, of b] by (simp add: inside_from_Cons)
    with Cons.prems have "(B \<noteq> [] \<and> is_heading (hd B)) \<or> (\<forall>b. \<not> inside_from b (l # pre))"
      by blast
    with s show ?thesis by (metis order_refl)
  next
    case False
    have s: "skip_to_heading ((l # pre) @ B @ post) = skip_to_heading (pre @ B @ post)"
      using False by (simp add: skip_to_heading_def)
    have "inside_from True (l # pre) = inside_from True pre"
      using section_step_body[OF False] by (simp add: inside_from_Cons)
    with Cons.prems have "(B \<noteq> [] \<and> is_heading (hd B)) \<or> \<not> inside_from True pre" by simp
    from Cons.IH[OF this] obtain p where p: "length p \<le> length pre"
      "skip_to_heading (pre @ B @ post) = p @ B @ post"
      "(B \<noteq> [] \<and> is_heading (hd B)) \<or> (\<forall>b. \<not> inside_from b p)" by blast
    have "length p \<le> length (l # pre)" using p(1) by simp
    with p(2,3) s show ?thesis by metis
  qed
qed

lemma tasks_loop_kept:
  assumes "\<forall>l \<in> set X. strip l \<noteq> TASK_SECTION_HEADER \<and> strip l \<noteq> ABANDONED_SECTION_HEADER"
  shows "replace_tasks_loop (X @ Y) new out r = replace_tasks_loop Y new (out @ X) r"
  using assms by (induction X arbitrary: out) simp_all

lemma tasks_loop_block:
  assumes "\<forall>l \<in> set B. strip l \<noteq> TASK_SECTION_HEADER \<and> strip l \<noteq> ABANDONED_SECTION_HEADER"
  shows "(B \<noteq> [] \<and> is_heading (hd B)) \<or> \<not> inside_from b pre \<Longrightarrow>
     \<exists>a r'. replace_tasks_loop (pre @ B @ post) new out r = replace_tasks_loop post new (a @ B) r'"
proof (induction "length pre" arbitrary: pre out r b rule: less_induct)
  case less
  show ?case
  proof (cases pre)
    case Nil
    have "replace_tasks_loop (B @ post) new out r = replace_tasks_loop post new (out @ B) r"
      using assms by (rule tasks_loop_kept)
    then show ?thesis using Nil by auto
  next
    case (Cons l pre')
    show ?thesis
    proof (cases "strip l = TASK_SECTION_HEADER \<or> strip l = ABANDONED_SECTION_HEADER")
      case True
      then have "section_step b l = True" by (auto simp: section_step_def recognized_def)
      then have "(B \<noteq> [] \<and> is_heading (hd B)) \<or> \<not> inside_from True pre'"
        using less.prems Cons by (simp add: inside_from_Cons)
      from skip_inside[OF this, of post] obtain p where p: "length p \<le> length pre'"
        "skip_to_heading (pre' @ B @ post) = p @ B @ post"
        "(B \<noteq> [] \<and> is_heading (hd B)) \<or> (\<forall>b. \<not> inside_from b p)" by blast
      have lp: "length p < length pre" using p(1) Cons by simp
      have c: "(B \<noteq> [] \<and> is_heading (hd B)) \<or> \<not> inside_from False p" using p(3) by blast
      show ?thesis using less.hyps[OF lp c] p(2) Cons True by auto
    next
      case False
      have lp: "length pre' < length pre" using Cons by simp
      have c: "(B \<noteq> [] \<and> is_heading (hd B)) \<or> \<not> inside_from (section_step b l) pre'"
        using less.prems Cons by (simp add: inside_from_Cons)
      show ?thesis using less.hyps[OF lp c] Cons False by simp
    qed
  qed
qed

lemma summary_loop_kept:
  assumes "\<forall>l \<in> set X. strip l \<noteq> SUMMARY_SECTION_HEADER"
  shows "replace_summary_loop (X @ Y) s out r = replace_summary_loop Y s (out @ X) r"
  using assms by (induction X arbitrary: out) simp_all

lemma summary_loop_block:
  assumes "\<forall>l \<in> set B. strip l \<noteq> SUMMARY_SECTION_HEADER"
  shows "(B \<noteq> [] \<and> is_heading (hd B)) \<or> \<not> inside_from b pre \<Longrightarrow>
     \<exists>a r'. replace_summary_loop (pre @ B @ post) s out r = replace_summary_loop post s (a @ B) r'"
proof (induction "length pre" arbitrary: pre out r b rule: less_induct)
  case less
  show ?case
  proof (cases pre)
    case Nil
    have "replace_summary_loop (B @ post) s out r = replace_summary_loop post s (out @ B) r"
      using assms by (rule summary_loop_kept)
    then show ?thesis using Nil by auto
  next
    case (Cons l pre')
    show ?thesis
    proof (cases "strip l = SUMMARY_SECTION_HEADER")
      case True
      then have "section_step b l = True" by (auto simp: section_step_def recognized_def)
      then have "(B \<noteq> [] \<and> is_heading (hd B)) \<or> \<not> inside_from True pre'"
        using less.prems Cons by (simp add: inside_from_Cons)
      from skip_inside[OF this, of post] obtain p where p: "length p \<le> length pre'"
        "skip_to_heading (pre' @ B @ post) = p @ B @ post"
        "(B \<noteq> [] \<and> is_heading (hd B)) \<or> (\<forall>b. \<not> inside_from b p)" by blast
      have lp: "length p < length pre" using p(1) Cons by simp
      have c: "(B \<noteq> [] \<and> is_heading (hd B)) \<or> \<not> inside_from False p" using p(3) by blast
      show ?thesis using less.hyps[OF lp c] p(2) Cons True by auto
    next
      case False
      have lp: "length pre' < length pre" using Cons by simp
      have c: "(B \<noteq> [] \<and> is_heading (hd B)) \<or> \<not> inside_from (section_step b l) pre'"
        using less.prems Cons by (simp add: inside_from_Cons)
      show ?thesis using less.hyps[OF lp c] Cons False by simp
    qed
  qed
qed

lemma tasks_out_block:
  assumes "\<forall>l \<in> set B. strip l \<noteq> TASK_SECTION_HEADER \<and> strip l \<noteq> ABANDONED_SECTION_HEADER"
    and "(B \<noteq> [] \<and> is_heading (hd B)) \<or> \<not> inside_section pre"
  shows "\<exists>a b. replace_tasks_out (pre @ B @ post) new = a @ B @ b"
proof -
  have c: "(B \<noteq> [] \<and> is_heading (hd B)) \<or> \<not> inside_from False pre"
    using assms(2) by (simp add: inside_section_def)
  obtain a r' where a: "replace_tasks_loop (pre @ B @ post) new [] False
       = replace_tasks_loop post new (a @ B) r'"
    using tasks_loop_block[OF assms(1) c] by blast
  obtain m where m: "fst (replace_tasks_loop post new (a @ B) r') = (a @ B) @ m"
    using tasks_loop_acc by blast
  obtain r2 where r2: "replace_tasks_loop post new (a @ B) r' = ((a @ B) @ m, r2)"
    using m by (metis prod.collapse)
  show ?thesis
  proof (cases r2)
    case True
    then have "replace_tasks_out (pre @ B @ post) new = a @ B @ m"
      by (simp add: replace_tasks_out_def a r2)
    then show ?thesis by blast
  next
    case False
    then have "\<exists>sep. replace_tasks_out (pre @ B @ post) new = a @ B @ (m @ sep @ [new])"
      by (simp add: replace_tasks_out_def a r2)
    then show ?thesis by blast
  qed
qed

lemma summary_out_block:
  assumes "\<forall>l \<in> set B. strip l \<noteq> SUMMARY_SECTION_HEADER"
    and "(B \<noteq> [] \<and> is_heading (hd B)) \<or> \<not> inside_section pre"
  shows "\<exists>a b. replace_summary_out (pre @ B @ post) s = a @ B @ b"
proof -
  have c: "(B \<noteq> [] \<and> is_heading (hd B)) \<or> \<not> inside_from False pre"
    using assms(2) by (simp add: inside_section_def)
  obtain a r' where a: "replace_summary_loop (pre @ B @ post) s [] False
       = replace_summary_loop post s (a @ B) r'"
    using summary_loop_block[OF assms(1) c] by blast
  obtain m where m: "fst (replace_summary_loop post s (a @ B) r') = (a @ B) @ m"
    using summary_loop_acc by blast
  obtain r2 where r2: "replace_summary_loop post s (a @ B) r' = ((a @ B) @ m, r2)"
    using m by (metis prod.collapse)
  show ?thesis
  proof (cases r2)
    case True
    then have "replace_summary_out (pre @ B @ post) s = a @ B @ m"
      by (simp add: replace_summary_out_def a r2)
    then show ?thesis by blast
  next
    case False
    then have "\<exists>sep. replace_summary_out (pre @ B @ post) s
        = a @ B @ (m @ sep @ [SUMMARY_SECTION_HEADER, [], strip s])"
      by (simp add: replace_summary_out_def a r2)
    then show ?thesis by blast
  qed
qed

text \<open>
  C4 as the code has it. Let the lines of a document (as \<open>splitlines\<close> cuts them)
  contain a block \<open>B\<close> of adjacent lines none of which is the Task, Abandoned or
  Summary header, and let the block start outside the recognized sections: either its
  first line is a \<open>## \<close> heading, or the lines before it leave the scan outside a
  recognized section (no heading yet, as for the title block \<open># date\<close> at the top
  of a file, or a last heading that is not a recognized header). Then both
  \<open>replace_tasks_section\<close> and \<open>replace_summary_section\<close> keep these lines,
  unchanged and next to each other, in the list they join, so the text of the block
  with its lines separated by \<open>\n\<close> is a contiguous part of the result.
\<close>

theorem opaque_section_kept:
  assumes "splitlines D = pre @ B @ post"
    and "B \<noteq> []"
    and "\<forall>l \<in> set B. \<not> recognized l"
    and "is_heading (hd B) \<or> \<not> inside_section pre"
  shows "sublist (join_nl B) (replace_tasks_section D new)
     \<and> sublist (join_nl B) (replace_summary_section D summary)
     \<and> (\<exists>a b. replace_tasks_out (splitlines D) new = a @ B @ b)
     \<and> (\<exists>a b. replace_summary_out (splitlines D) summary = a @ B @ b)"
proof -
  have n: "\<forall>l \<in> set B. strip l \<noteq> TASK_SECTION_HEADER \<and> strip l \<noteq> ABANDONED_SECTION_HEADER"
    "\<forall>l \<in> set B. strip l \<noteq> SUMMARY_SECTION_HEADER"
    using assms(3) by (auto simp: recognized_def)
  have c: "(B \<noteq> [] \<and> is_heading (hd B)) \<or> \<not> inside_section pre"
    using assms(2,4) by blast
  obtain a b where t: "replace_tasks_out (splitlines D) new = a @ B @ b"
    using tasks_out_block[OF n(1) c] assms(1) by metis
  obtain c d where s: "replace_summary_out (splitlines D) summary = c @ B @ d"
    using summary_out_block[OF n(2) c] assms(1) by metis
  have "sublist (join_nl B) (join_nl (a @ B @ b))" "sublist (join_nl B) (join_nl (c @ B @ d))"
    using assms(2) by (rule join_nl_sublist)+
  with t s show ?thesis
    unfolding replace_tasks_section_def replace_summary_section_def by metis
qed

text \<open>
  The document made of the title \<open># d\<close>, an empty line, the Task header,
  \<open>- [ ] a\<close>, the heading \<open>## N\<close> and the line \<open>b\<close>: the title block before the
  first heading and the block \<open>## N\<close>, \<open>b\<close> are both part of both results.
\<close>

theorem opaque_section_kept_witness:
  "sublist [35, 32, 100, 10]
     (replace_tasks_section
        ([35, 32, 100, 10, 10] @ TASK_SECTION_HEADER
          @ [10, 45, 32, 91, 32, 93, 32, 97, 10, 35, 35, 32, 78, 10, 98]) [110])
   \<and> sublist [35, 32, 100, 10]
     (replace_summary_section
        ([35, 32, 100, 10, 10] @ TASK_SECTION_HEADER
          @ [10, 45, 32, 91, 32, 93, 32, 97, 10, 35, 35, 32, 78, 10, 98]) [115])
   \<and> sublist [35, 35, 32, 78, 10, 98]
     (replace_tasks_section
        ([35, 32, 100, 10, 10] @ TASK_SECTION_HEADER
          @ [10, 45, 32, 91, 32, 93, 32, 97, 10, 35, 35, 32, 78, 10, 98]) [110])
   \<and> sublist [35, 35, 32, 78, 10, 98]
     (replace_summary_section
        ([35, 32, 100, 10, 10] @ TASK_SECTION_HEADER
          @ [10, 45, 32, 91, 32, 93, 32, 97, 10, 35, 35, 32, 78, 10, 98]) [115])"
proof -
  let ?D = "[35, 32, 100, 10, 10] @ TASK_SECTION_HEADER
      @ [10, 45, 32, 91, 32, 93, 32, 97, 10, 35, 35, 32, 78, 10, 98]"
  have 1: "splitlines ?D
      = [] @ [[35, 32, 100], []] @ [TASK_SECTION_HEADER, [45, 32, 91, 32, 93, 32, 97],
          [35, 35, 32, 78], [98]]"
    by (simp add: storage_defs)
  have 2: "[[35, 32, 100], []] \<noteq> []" by simp
  have 3: "\<forall>l \<in> set [[35, 32, 100], []]. \<not> recognized l"
    by (simp add: recognized_def storage_defs)
  have 4: "is_heading (hd [[35, 32, 100], []]) \<or> \<not> inside_section []"
    by (simp add: inside_section_def inside_from_def)
  have 5: "splitlines ?D
      = [[35, 32, 100], [], TASK_SECTION_HEADER, [45, 32, 91, 32, 93, 32, 97]]
          @ [[35, 35, 32, 78], [98]] @ []"
    by (simp add: storage_defs)
  have 6: "[[35, 35, 32, 78], [98]] \<noteq> []" by simp
  have 7: "\<forall>l \<in> set [[35, 35, 32, 78], [98]]. \<not> recognized l"
    by (simp add: recognized_def storage_defs)
  have 8: "is_heading (hd [[35, 35, 32, 78], [98]])
      \<or> \<not> inside_section [[35, 32, 100], [], TASK_SECTION_HEADER, [45, 32, 91, 32, 93, 32, 97]]"
    by (simp add: is_heading_def storage_defs)
  show ?thesis
    using opaque_section_kept [OF 1 2 3 4, of "[110]" "[115]"]
      opaque_section_kept [OF 5 6 7 8, of "[110]" "[115]"]
    by simp
qed

text \<open>
  C4 as stated fails in two ways. The document \<open>## N\<close>, \<open>\n\<close>, \<open>b\<close>, form feed,
  \<open>c\<close> is one opaque section; \<open>splitlines\<close> cuts it at the form feed as well, and
  \<open>replace_summary_section\<close> returns it with \<open>\n\<close> in place of the form feed, so
  its text is not part of the result. In the document made of the Task header,
  \<open>- [ ] a\<close>, the level-three heading \<open>### N\<close> and the line \<open>b\<close>,
  \<open>replace_tasks_section\<close> drops the block \<open>### N\<close>, \<open>b\<close> with the old Task section.
\<close>

theorem section_isolation_counterexample:
  "\<not> sublist [35, 35, 32, 78, 10, 98, 12, 99]
       (replace_summary_section [35, 35, 32, 78, 10, 98, 12, 99] [115])
   \<and> \<not> sublist [35, 35, 35, 32, 78, 10, 98]
       (replace_tasks_section
          (TASK_SECTION_HEADER @ [10, 45, 32, 91, 32, 93, 32, 97, 10, 35, 35, 35, 32, 78, 10, 98])
          (TASK_SECTION_HEADER @ [10]))"
  by (simp add: replace_summary_section_def replace_summary_out_def replace_tasks_section_def
      replace_tasks_out_def skip_to_heading_def is_heading_def storage_defs sublist_code prefix_code)

section \<open>Lines: \<open>splitlines\<close> and \<open>join\<close>\<close>

lemma linebreak_10: "is_linebreak 10" by (simp add: is_linebreak_def)

lemma no_linebreak_simps:
  "no_linebreak []" "no_linebreak (c # l) \<longleftrightarrow> \<not> is_linebreak c \<and> no_linebreak l"
  "no_linebreak (a @ b) \<longleftrightarrow> no_linebreak a \<and> no_linebreak b"
  by (auto simp: no_linebreak_def)

lemma splitlines_from_no_linebreak:
  "no_linebreak cur \<Longrightarrow> \<forall>l \<in> set (splitlines_from cur s). no_linebreak l"
  by (induction cur s rule: splitlines_from.induct) (auto simp: no_linebreak_simps)

lemma splitlines_no_linebreak: "l \<in> set (splitlines s) \<Longrightarrow> no_linebreak l"
  using splitlines_from_no_linebreak[of "[]" s] by (simp add: splitlines_def no_linebreak_simps)

lemma splitlines_from_line:
  "no_linebreak l \<Longrightarrow> splitlines_from cur (l @ 10 # rest) = (cur @ l) # splitlines_from [] rest"
proof (induction l arbitrary: cur)
  case Nil
  show ?case by (cases rest) (simp_all add: linebreak_10)
next
  case (Cons c l)
  then have c: "\<not> is_linebreak c" "no_linebreak l" by (simp_all add: no_linebreak_simps)
  obtain d ds where d: "l @ 10 # rest = d # ds" by (cases "l @ 10 # rest") simp_all
  have "c \<noteq> 13" using c(1) by (auto simp: is_linebreak_def)
  then have "splitlines_from cur (c # d # ds) = splitlines_from (cur @ [c]) (d # ds)"
    using c(1) by simp
  then show ?case using Cons.IH[OF c(2), of "cur @ [c]"] d by simp
qed

lemma splitlines_from_last:
  "no_linebreak l \<Longrightarrow> splitlines_from cur l = (if cur @ l = [] then [] else [cur @ l])"
proof (induction l arbitrary: cur)
  case Nil
  show ?case by simp
next
  case (Cons c l)
  then have c: "\<not> is_linebreak c" "no_linebreak l" by (simp_all add: no_linebreak_simps)
  have c13: "c \<noteq> 13" using c(1) by (auto simp: is_linebreak_def)
  show ?case
  proof (cases l)
    case Nil
    then show ?thesis using c(1) by simp
  next
    case (Cons d ds)
    then have "splitlines_from cur (c # l) = splitlines_from (cur @ [c]) l"
      using c(1) c13 by simp
    then show ?thesis using Cons.IH[OF c(2), of "cur @ [c]"] by simp
  qed
qed

lemma splitlines_join_then:
  assumes "\<forall>l \<in> set X. no_linebreak l"
  shows "splitlines (join_nl (X @ [new])) = X @ splitlines new"
  using assms
proof (induction X)
  case Nil
  show ?case by simp
next
  case (Cons l X)
  then have l: "no_linebreak l" and X: "\<forall>l \<in> set X. no_linebreak l" by simp_all
  obtain m ms where m: "X @ [new] = m # ms" by (cases "X @ [new]") simp_all
  have "join_nl ((l # X) @ [new]) = l @ 10 # join_nl (X @ [new])" using m by simp
  then show ?case
    using Cons.IH[OF X] splitlines_from_line[OF l, of "[]"] by (simp add: splitlines_def)
qed

lemma splitlines_from_cut:
  "splitlines_from cur (a @ 10 # b) = splitlines_from cur (a @ [10]) @ splitlines_from [] b"
proof (induction cur a rule: splitlines_from.induct)
  case (1 cur)
  show ?case by (cases b) (simp_all add: linebreak_10)
next
  case (2 cur c)
  show ?case by (cases b) (simp_all add: linebreak_10)
next
  case (3 cur c d cs)
  then show ?case by simp
qed

lemma splitlines_from_end_filter:
  assumes "\<not> P []"
  shows "filter P (splitlines_from cur (a @ [10])) = filter P (splitlines_from cur a)"
proof (induction cur a rule: splitlines_from.induct)
  case (1 cur)
  show ?case using assms by (simp add: linebreak_10)
next
  case (2 cur c)
  show ?case using assms by (auto simp: linebreak_10 is_linebreak_def)
next
  case (3 cur c d cs)
  then show ?case by simp
qed

lemma splitlines_cut_filter:
  assumes "\<not> P []"
  shows "filter P (splitlines (a @ 10 # b)) = filter P (splitlines a) @ filter P (splitlines b)"
  unfolding splitlines_def
  by (simp add: splitlines_from_cut[of "[]" a b] splitlines_from_end_filter[where P = P, OF assms])

lemma splitlines_join_filter:
  assumes "\<not> P []"
  shows "filter P (splitlines (join_nl xs)) = concat (map (\<lambda>x. filter P (splitlines x)) xs)"
proof (induction xs rule: join_nl.induct)
  case 1
  show ?case by (simp add: splitlines_def)
next
  case (2 l)
  show ?case by simp
next
  case (3 l m ls)
  then show ?case by (simp add: splitlines_cut_filter[where P = P, OF assms])
qed

section \<open>The section editor: a document without Task header\<close>

lemma strip_Nil: "strip [] = []"
  by (simp add: strip_def lstrip_def rstrip_def)

lemma splitlines_single:
  "no_linebreak x \<Longrightarrow> splitlines x = (if x = [] then [] else [x])"
  using splitlines_from_last[of x "[]"] by (simp add: splitlines_def)

lemma no_task_loop:
  assumes "\<forall>l \<in> set ls. strip l \<noteq> TASK_SECTION_HEADER"
  shows "\<exists>R. replace_tasks_loop ls new out r = (out @ R, r)
     \<and> set R \<subseteq> {l \<in> set ls. strip l \<noteq> TASK_SECTION_HEADER \<and> strip l \<noteq> ABANDONED_SECTION_HEADER}"
  using assms
proof (induction ls new out r rule: replace_tasks_loop.induct)
  case (1 new out replaced)
  then show ?case by simp
next
  case (2 line rest new out replaced)
  have s: "set (skip_to_heading rest) \<subseteq> set rest"
    by (auto simp: skip_to_heading_def dest: set_dropWhileD)
  from 2(4) have nl: "strip line \<noteq> TASK_SECTION_HEADER"
    and nr: "\<forall>l \<in> set rest. strip l \<noteq> TASK_SECTION_HEADER" by simp_all
  show ?case
  proof (cases "strip line = ABANDONED_SECTION_HEADER")
    case True
    have "\<forall>l \<in> set (skip_to_heading rest). strip l \<noteq> TASK_SECTION_HEADER"
      using nr s by blast
    from 2(2)[OF nl True this] obtain R where
      R: "replace_tasks_loop (skip_to_heading rest) new out replaced = (out @ R, replaced)"
      "set R \<subseteq> {l \<in> set (skip_to_heading rest).
          strip l \<noteq> TASK_SECTION_HEADER \<and> strip l \<noteq> ABANDONED_SECTION_HEADER}"
      by blast
    have "set R \<subseteq> {l \<in> set (line # rest).
          strip l \<noteq> TASK_SECTION_HEADER \<and> strip l \<noteq> ABANDONED_SECTION_HEADER}"
      using R(2) s by auto
    with R(1) nl True show ?thesis by auto
  next
    case False
    from 2(3)[OF nl False nr] obtain R where
      R: "replace_tasks_loop rest new (out @ [line]) replaced = ((out @ [line]) @ R, replaced)"
      "set R \<subseteq> {l \<in> set rest.
          strip l \<noteq> TASK_SECTION_HEADER \<and> strip l \<noteq> ABANDONED_SECTION_HEADER}"
      by blast
    have "set (line # R) \<subseteq> {l \<in> set (line # rest).
          strip l \<noteq> TASK_SECTION_HEADER \<and> strip l \<noteq> ABANDONED_SECTION_HEADER}"
      using R(2) nl False by auto
    moreover have "replace_tasks_loop (line # rest) new out replaced = (out @ line # R, replaced)"
      using R(1) nl False by simp
    ultimately show ?thesis by blast
  qed
qed

lemma count_lines_zero:
  assumes "\<forall>x \<in> set X. no_linebreak x \<and> strip x \<noteq> TASK_SECTION_HEADER"
  shows "concat (map (\<lambda>x. filter (\<lambda>l. strip l = TASK_SECTION_HEADER) (splitlines x)) X) = []"
  using assms by (induction X) (simp_all add: splitlines_single)

text \<open>
  C8 as the code has it. Let no line of the document be the Task header, and let the new
  section text begin with the Task header line and hold no other Task header line. Then
  \<open>replace_tasks_section\<close> returns the lines the loop kept, an empty line when these do
  not end with a blank line, and the new text; the result has exactly one Task header
  line, and so has the result of applying \<open>replace_tasks_section\<close> to it again with the
  same text. The function is total: there is no input on which it fails.
\<close>

theorem missing_header_append:
  assumes "\<forall>l \<in> set (splitlines D). strip l \<noteq> TASK_SECTION_HEADER"
    and "splitlines new = h # rest"
    and "strip h = TASK_SECTION_HEADER"
    and "\<forall>l \<in> set rest. strip l \<noteq> TASK_SECTION_HEADER"
  shows "replace_tasks_section D new =
       join_nl (fst (replace_tasks_loop (splitlines D) new [] False)
         @ (if fst (replace_tasks_loop (splitlines D) new [] False) \<noteq> []
               \<and> strip (last (fst (replace_tasks_loop (splitlines D) new [] False))) \<noteq> []
            then [[]] else [])
         @ [new])
     \<and> count_task_headers (replace_tasks_section D new) = 1
     \<and> count_task_headers (replace_tasks_section (replace_tasks_section D new) new) = 1"
proof -
  let ?P = "\<lambda>l. strip l = TASK_SECTION_HEADER"
  let ?L = "splitlines D"
  have notP: "\<not> ?P []" by (simp add: strip_Nil TASK_SECTION_HEADER_def)
  obtain K where K: "replace_tasks_loop ?L new [] False = (K, False)"
    "set K \<subseteq> {l \<in> set ?L. strip l \<noteq> TASK_SECTION_HEADER \<and> strip l \<noteq> ABANDONED_SECTION_HEADER}"
    using no_task_loop[OF assms(1), of new "[]" False] by auto
  define X where "X = K @ (if K \<noteq> [] \<and> strip (last K) \<noteq> [] then [[]] else [])"
  have out1: "replace_tasks_out ?L new = X @ [new]"
    by (simp add: replace_tasks_out_def K(1) X_def)
  have D1: "replace_tasks_section D new = join_nl (X @ [new])"
    by (simp add: replace_tasks_section_def out1)
  have Xok: "\<forall>x \<in> set X. no_linebreak x \<and> strip x \<noteq> TASK_SECTION_HEADER
      \<and> strip x \<noteq> ABANDONED_SECTION_HEADER"
    using K(2) splitlines_no_linebreak[of _ D]
    by (auto simp: X_def no_linebreak_simps strip_Nil TASK_SECTION_HEADER_def
        ABANDONED_SECTION_HEADER_def)
  have cX: "concat (map (\<lambda>x. filter ?P (splitlines x)) X) = []"
    using Xok by (intro count_lines_zero) blast
  have cnew: "filter ?P (splitlines new) = [h]"
    using assms(2-4) by (simp add: filter_empty_conv[THEN iffD2])
  have c1: "count_task_headers (replace_tasks_section D new) = 1"
    unfolding count_task_headers_def D1
    by (simp add: splitlines_join_filter[where P = ?P, OF notP] cX cnew)
  have L1: "splitlines (replace_tasks_section D new) = X @ h # rest"
    unfolding D1 using splitlines_join_then[of X new] Xok assms(2) by simp
  have sr: "set (skip_to_heading rest) \<subseteq> set rest"
    by (auto simp: skip_to_heading_def dest: set_dropWhileD)
  then have "\<forall>l \<in> set (skip_to_heading rest). strip l \<noteq> TASK_SECTION_HEADER"
    using assms(4) by blast
  from no_task_loop[OF this, of new "X @ [new]" True] obtain R where
    R: "replace_tasks_loop (skip_to_heading rest) new (X @ [new]) True = ((X @ [new]) @ R, True)"
    "set R \<subseteq> {l \<in> set (skip_to_heading rest).
        strip l \<noteq> TASK_SECTION_HEADER \<and> strip l \<noteq> ABANDONED_SECTION_HEADER}"
    by blast
  have "replace_tasks_loop (X @ h # rest) new [] False
      = replace_tasks_loop (h # rest) new ([] @ X) False"
    using Xok by (intro tasks_loop_kept) blast
  then have loop2: "replace_tasks_loop (X @ h # rest) new [] False = ((X @ [new]) @ R, True)"
    using R(1) assms(3) by simp
  have D2: "replace_tasks_section (replace_tasks_section D new) new = join_nl (X @ [new] @ R)"
    by (simp add: replace_tasks_section_def[of "replace_tasks_section D new"] L1
        replace_tasks_out_def loop2)
  have "\<forall>x \<in> set R. x \<in> set (splitlines new)" using R(2) sr assms(2) by auto
  then have Rok: "\<forall>x \<in> set R. no_linebreak x \<and> strip x \<noteq> TASK_SECTION_HEADER"
    using R(2) splitlines_no_linebreak[of _ new] by auto
  have cR: "concat (map (\<lambda>x. filter ?P (splitlines x)) R) = []"
    using Rok by (rule count_lines_zero)
  have c2: "count_task_headers (replace_tasks_section (replace_tasks_section D new) new) = 1"
    unfolding count_task_headers_def D2
    by (simp add: splitlines_join_filter[where P = ?P, OF notP] cX cnew cR)
  have "fst (replace_tasks_loop ?L new [] False) = K" by (simp add: K(1))
  with D1 c1 c2 show ?thesis by (simp add: X_def)
qed

text \<open>The document \<open>a\<close> and the new text made of the Task header and \<open>- [ ] b\<close>.\<close>

theorem missing_header_append_witness:
  "replace_tasks_section [97] (TASK_SECTION_HEADER @ [10, 45, 32, 91, 32, 93, 32, 98])
     = [97, 10, 10] @ TASK_SECTION_HEADER @ [10, 45, 32, 91, 32, 93, 32, 98]
   \<and> count_task_headers
       (replace_tasks_section
          (replace_tasks_section [97] (TASK_SECTION_HEADER @ [10, 45, 32, 91, 32, 93, 32, 98]))
          (TASK_SECTION_HEADER @ [10, 45, 32, 91, 32, 93, 32, 98])) = 1"
proof -
  have 1: "\<forall>l \<in> set (splitlines [97]). strip l \<noteq> TASK_SECTION_HEADER"
    by (simp add: storage_defs)
  have 2: "splitlines (TASK_SECTION_HEADER @ [10, 45, 32, 91, 32, 93, 32, 98])
      = TASK_SECTION_HEADER # [[45, 32, 91, 32, 93, 32, 98]]"
    by (simp add: storage_defs)
  have 3: "strip TASK_SECTION_HEADER = TASK_SECTION_HEADER"
    by (simp add: storage_defs)
  have 4: "\<forall>l \<in> set [[45, 32, 91, 32, 93, 32, 98]]. strip l \<noteq> TASK_SECTION_HEADER"
    by (simp add: storage_defs)
  have 5: "replace_tasks_section [97] (TASK_SECTION_HEADER @ [10, 45, 32, 91, 32, 93, 32, 98])
     = [97, 10, 10] @ TASK_SECTION_HEADER @ [10, 45, 32, 91, 32, 93, 32, 98]"
    by (simp add: replace_tasks_section_def replace_tasks_out_def storage_defs)
  from missing_header_append [OF 1 2 3 4] 5 show ?thesis by blast
qed

text \<open>
  C8 as stated fails for a new text that begins with the Task header line and holds it
  a second time: on the empty document and the text made of two Task header lines, two
  applications give four Task header lines.
\<close>

theorem missing_header_append_counterexample:
  "count_task_headers
     (replace_tasks_section
        (replace_tasks_section [] (TASK_SECTION_HEADER @ 10 # TASK_SECTION_HEADER))
        (TASK_SECTION_HEADER @ 10 # TASK_SECTION_HEADER)) = 4"
  by (simp add: count_task_headers_def replace_tasks_section_def replace_tasks_out_def
      skip_to_heading_def is_heading_def storage_defs)

section \<open>What the parser returns\<close>

lemma rstrip_snoc_nonspace: "\<not> isspace c \<Longrightarrow> rstrip (a @ [c]) = a @ [c]"
  by (simp add: rstrip_def)

lemma rstrip_snoc_space: "isspace c \<Longrightarrow> rstrip (a @ [c]) = rstrip a"
  by (simp add: rstrip_def)

lemma rstrip_last: "rstrip y \<noteq> [] \<Longrightarrow> \<not> isspace (last (rstrip y))"
  unfolding rstrip_def by (simp add: last_rev hd_dropWhile)

lemma strip_last: "strip x \<noteq> [] \<Longrightarrow> \<not> isspace (last (strip x))"
  unfolding strip_def by (rule rstrip_last)

lemma strip_fixed:
  assumes "x \<noteq> []" "\<not> isspace (hd x)" "\<not> isspace (last x)"
  shows "strip x = x"
proof -
  have l: "lstrip x = x" using assms(1,2) by (cases x) (simp_all add: lstrip_def)
  have "rstrip (butlast x @ [last x]) = butlast x @ [last x]"
    using assms(3) by (rule rstrip_snoc_nonspace)
  then have "rstrip x = x" using assms(1) by simp
  with l show ?thesis by (simp add: strip_def)
qed

lemma strip_strip: "strip (strip x) = strip x"
proof (cases "strip x")
  case Nil then show ?thesis by (simp add: strip_Nil)
next
  case (Cons c r)
  then have "\<not> isspace (hd (strip x))" using strip_hd_not_space[OF Cons] by simp
  moreover have "\<not> isspace (last (strip x))" by (rule strip_last) (simp add: Cons)
  ultimately show ?thesis using Cons by (intro strip_fixed) simp_all
qed

lemma set_rstrip: "set (rstrip s) \<subseteq> set s"
  unfolding rstrip_def using set_dropWhileD[of _ isspace "rev s"] by auto

lemma set_strip: "set (strip s) \<subseteq> set s"
  unfolding strip_def lstrip_def using set_rstrip[of "dropWhile isspace s"] set_dropWhileD[of _ isspace s]
  by blast

lemma dropWhile_Cons_subset: "dropWhile P xs = y # ys \<Longrightarrow> set ys \<subseteq> set xs"
  using set_dropWhileD[of _ P xs] by (metis list.set_intros(2) subsetI)

lemma match_groups:
  assumes "TASK_LINE_match s = Some (g1, g2)"
  shows "set g2 \<subseteq> set s" "g1 = [32] \<or> g1 = [120] \<or> g1 = [88] \<or> g1 = [126]"
proof -
  from assms obtain s1 where s1: "dropWhile isspace s = 45 # s1"
    by (auto simp: TASK_LINE_match_def split: list.splits if_splits)
  from assms s1 obtain c r where r: "dropWhile isspace s1 = 91 # c # 93 # r"
    and g2: "g2 = dropWhile isspace r \<or> g2 = butlast (dropWhile isspace r)"
    and g1: "g1 = [c]" "c = 32 \<or> c = 120 \<or> c = 88 \<or> c = 126"
    by (auto simp: TASK_LINE_match_def Let_def split: list.splits if_splits)
  have "set s1 \<subseteq> set s" using s1 by (rule dropWhile_Cons_subset)
  moreover have "set r \<subseteq> set s1" using dropWhile_Cons_subset[OF r] by auto
  moreover have "set g2 \<subseteq> set r" using g2 set_dropWhileD[of _ isspace r]
    by (auto dest: in_set_butlastD)
  ultimately show "set g2 \<subseteq> set s" by blast
  show "g1 = [32] \<or> g1 = [120] \<or> g1 = [88] \<or> g1 = [126]" using g1 by auto
qed

lemma parse_task_line_wf:
  assumes "parse_task_line line i = Some t" "no_linebreak line"
  shows "wf_task t"
proof -
  from assms(1) obtain g1 g2 where m: "TASK_LINE_match (strip line) = Some (g1, g2)"
    and t: "title t = strip g2"
      "status t = (if lower_group g1 = [120] then CHECK_DONE
                   else if lower_group g1 = [126] then CHECK_ABANDONED else CHECK_PENDING)"
    by (auto simp: parse_task_line_def split: option.splits)
  have "set (strip g2) \<subseteq> set line"
    using set_strip[of g2] match_groups(1)[OF m] set_strip[of line] by blast
  then have "no_linebreak (title t)" using assms(2) t(1) by (auto simp: no_linebreak_def)
  then show ?thesis using t by (simp add: wf_task_def strip_strip)
qed

lemma all_wf_step: "all_wf st \<Longrightarrow> no_linebreak line \<Longrightarrow> all_wf (parse_step st line)"
  by (auto simp: all_wf_def parse_step_def wf_task_def dest!: parse_task_line_wf
      split: option.splits)

lemma all_wf_foldl:
  "all_wf st \<Longrightarrow> \<forall>l \<in> set ls. no_linebreak l \<Longrightarrow> all_wf (foldl parse_step st ls)"
  by (induction ls arbitrary: st) (simp_all add: all_wf_step)

lemma parse_wf: "t \<in> set (parse_tasks_from_markdown D) \<Longrightarrow> wf_task t"
proof -
  have "all_wf (foldl parse_step parse_init (splitlines D))"
    by (rule all_wf_foldl) (auto simp: all_wf_def parse_init_def splitlines_no_linebreak)
  then show "t \<in> set (parse_tasks_from_markdown D) \<Longrightarrow> wf_task t"
    by (simp add: all_wf_def parse_tasks_from_markdown_def parse_lines_def)
qed

section \<open>Parsing what the serializer writes\<close>

lemma wf_title_ends:
  assumes "wf_task t" "title t \<noteq> []"
  shows "\<not> isspace (hd (title t))" "\<not> isspace (last (title t))"
proof -
  have s: "strip (title t) = title t" using assms(1) by (simp add: wf_task_def)
  obtain c r where cr: "strip (title t) = c # r" using assms(2) s by (cases "title t") auto
  show "\<not> isspace (hd (title t))" using strip_hd_not_space[OF cr] cr s by simp
  show "\<not> isspace (last (title t))" using strip_last[of "title t"] s assms(2) by simp
qed

lemma wf_title_no_nl: "wf_task t \<Longrightarrow> 10 \<notin> set (title t)"
proof
  assume "wf_task t" and "10 \<in> set (title t)"
  then have "no_linebreak (title t)" "10 \<in> set (title t)" by (simp_all add: wf_task_def)
  then have "\<not> is_linebreak 10" unfolding no_linebreak_def by blast
  then show False using linebreak_10 by simp
qed

lemma dropWhile_title: "wf_task t \<Longrightarrow> dropWhile isspace (title t) = title t"
  using wf_title_ends(1)[of t] by (cases "title t") auto

lemma match_canonical:
  assumes "c = 32 \<or> c = 120 \<or> c = 126" "dropWhile isspace x = x" "10 \<notin> set x"
  shows "TASK_LINE_match (45 # 32 # 91 # c # 93 # 32 # x) = Some ([c], x)"
proof -
  have a: "dropWhile isspace (45 # 32 # 91 # c # 93 # 32 # x) = 45 # 32 # 91 # c # 93 # 32 # x"
    by (simp add: isspace_def)
  have b: "dropWhile isspace (32 # 91 # c # 93 # 32 # x) = 91 # c # 93 # 32 # x"
    by (simp add: isspace_def)
  have d: "dropWhile isspace (32 # x) = x"
    using assms(2) by (simp add: isspace_def)
  have "TASK_LINE_match (45 # 32 # 91 # c # 93 # 32 # x) =
      (if 10 \<notin> set (dropWhile isspace (32 # x)) then Some ([c], dropWhile isspace (32 # x))
       else if 10 \<notin> set (butlast (dropWhile isspace (32 # x)))
         then Some ([c], butlast (dropWhile isspace (32 # x))) else None)"
    unfolding TASK_LINE_match_def a using assms(1) by (simp only: list.case b Let_def) auto
  then show ?thesis using assms(3) by (simp only: d) simp
qed

lemma match_canonical_empty:
  assumes "c = 32 \<or> c = 120 \<or> c = 126"
  shows "TASK_LINE_match [45, 32, 91, c, 93] = Some ([c], [])"
proof -
  have a: "dropWhile isspace [45, 32, 91, c, 93] = [45, 32, 91, c, 93]"
    by (simp add: isspace_def)
  have b: "dropWhile isspace [32, 91, c, 93] = [91, c, 93]"
    by (simp add: isspace_def)
  show ?thesis
    unfolding TASK_LINE_match_def a using assms by (simp only: list.case b Let_def) auto
qed

lemma match_to_markdown:
  assumes "wf_task t" "status t = [c]" "c = 32 \<or> c = 120 \<or> c = 126"
  shows "TASK_LINE_match (strip (to_markdown t)) = Some ([c], title t)"
proof (cases "title t = []")
  case True
  have l: "lstrip [45, 32, 91, c, 93, 32] = [45, 32, 91, c, 93, 32]"
    by (simp add: lstrip_def isspace_def)
  have "rstrip ([45, 32, 91, c] @ [93]) = [45, 32, 91, c] @ [93]"
    by (rule rstrip_snoc_nonspace) (simp add: isspace_def)
  moreover have "rstrip ([45, 32, 91, c, 93] @ [32]) = rstrip [45, 32, 91, c, 93]"
    by (rule rstrip_snoc_space) (simp add: isspace_def)
  ultimately have "rstrip [45, 32, 91, c, 93, 32] = [45, 32, 91, c, 93]" by simp
  then have "strip (to_markdown t) = [45, 32, 91, c, 93]"
    using True assms(2) l by (simp add: to_markdown_def strip_def)
  then show ?thesis using match_canonical_empty[OF assms(3)] True by simp
next
  case False
  have l: "\<not> isspace (last (to_markdown t))"
    using wf_title_ends(2)[OF assms(1) False] False by (simp add: to_markdown_def)
  have n: "to_markdown t \<noteq> []" by (simp add: to_markdown_def)
  have "\<not> isspace 45" by (simp add: isspace_def)
  then have h: "\<not> isspace (hd (to_markdown t))" by (simp add: to_markdown_def)
  have s: "strip (to_markdown t) = to_markdown t"
    using n h l by (rule strip_fixed)
  have "TASK_LINE_match (45 # 32 # 91 # c # 93 # 32 # title t) = Some ([c], title t)"
    using assms(3) dropWhile_title[OF assms(1)] wf_title_no_nl[OF assms(1)]
    by (rule match_canonical)
  then show ?thesis using s assms(2) by (simp add: to_markdown_def)
qed

lemma wf_status: "wf_task t \<Longrightarrow> \<exists>c. status t = [c] \<and> (c = 32 \<or> c = 120 \<or> c = 126)"
  by (auto simp: wf_task_def CHECK_PENDING_def CHECK_DONE_def CHECK_ABANDONED_def)

lemma parse_to_markdown:
  assumes "wf_task t"
  shows "\<exists>t'. parse_task_line (to_markdown t) i = Some t' \<and> index t' = i
      \<and> title t' = title t \<and> status t' = status t"
proof -
  obtain c where c: "status t = [c]" "c = 32 \<or> c = 120 \<or> c = 126"
    using wf_status[OF assms] by blast
  have m: "TASK_LINE_match (strip (to_markdown t)) = Some ([c], title t)"
    using match_to_markdown[OF assms c] .
  have "strip (title t) = title t" using assms by (simp add: wf_task_def)
  then have "parse_task_line (to_markdown t) i
      = Some \<lparr>index = i, title = title t,
          status = (if lower_group [c] = [120] then CHECK_DONE
                    else if lower_group [c] = [126] then CHECK_ABANDONED else CHECK_PENDING),
          raw_line = rstrip (to_markdown t)\<rparr>"
    by (simp add: parse_task_line_def m)
  moreover have "(if lower_group [c] = [120] then CHECK_DONE
                    else if lower_group [c] = [126] then CHECK_ABANDONED else CHECK_PENDING)
      = status t"
    using c by (elim disjE)
      (simp_all add: lower_group_def CHECK_PENDING_def CHECK_DONE_def CHECK_ABANDONED_def)
  ultimately show ?thesis by simp
qed

lemma step_to_markdown:
  assumes "wf_task t" "st_in_tasks st \<or> st_in_abandoned st"
    "st_in_abandoned st \<longrightarrow> is_abandoned t"
  shows "\<exists>t'. parse_step st (to_markdown t)
       = st\<lparr>st_index := st_index st + 1, st_tasks := st_tasks st @ [t']\<rparr>
     \<and> triple t' = (st_index st + 1, title t, status t)"
proof -
  obtain t' where t': "parse_task_line (to_markdown t) (st_index st + 1) = Some t'"
    "index t' = st_index st + 1" "title t' = title t" "status t' = status t"
    using parse_to_markdown[OF assms(1)] by blast
  obtain g where "TASK_LINE_match (strip (to_markdown t)) = Some g"
    using t'(1) by (auto simp: parse_task_line_def split: option.splits)
  note nh = match_not_heading[OF this]
  show ?thesis
  proof (cases "st_in_abandoned st")
    case True
    let ?u = "\<lparr>index = index t', title = title t', status = CHECK_ABANDONED,
        raw_line = raw_line t'\<rparr>"
    have st: "status t = CHECK_ABANDONED" using assms(3) True by (simp add: is_abandoned_def)
    have 1: "parse_step st (to_markdown t)
        = st\<lparr>st_index := st_index st + 1, st_tasks := st_tasks st @ [?u]\<rparr>"
      using nh t'(1) True by (simp add: parse_step_def)
    have 2: "triple ?u = (st_index st + 1, title t, status t)"
      using t'(2,3) st by (simp add: triple_def)
    from 1 2 show ?thesis by blast
  next
    case False
    have 1: "parse_step st (to_markdown t)
        = st\<lparr>st_index := st_index st + 1, st_tasks := st_tasks st @ [t']\<rparr>"
      using nh t'(1) False assms(2) by (simp add: parse_step_def)
    have 2: "triple t' = (st_index st + 1, title t, status t)"
      using t'(2-4) by (simp add: triple_def)
    from 1 2 show ?thesis by blast
  qed
qed

lemma foldl_to_markdown:
  assumes "\<forall>t \<in> set ts. wf_task t" "st_in_tasks st \<or> st_in_abandoned st"
    "st_in_abandoned st \<longrightarrow> (\<forall>t \<in> set ts. is_abandoned t)"
  shows "map triple (st_tasks (foldl parse_step st (map to_markdown ts)))
       = map triple (st_tasks st) @ renumber (st_index st) ts
     \<and> st_index (foldl parse_step st (map to_markdown ts)) = st_index st + int (length ts)
     \<and> st_in_tasks (foldl parse_step st (map to_markdown ts)) = st_in_tasks st
     \<and> st_in_abandoned (foldl parse_step st (map to_markdown ts)) = st_in_abandoned st"
  using assms
proof (induction ts arbitrary: st)
  case Nil
  show ?case by simp
next
  case (Cons t ts)
  obtain t' where t': "parse_step st (to_markdown t)
       = st\<lparr>st_index := st_index st + 1, st_tasks := st_tasks st @ [t']\<rparr>"
     "triple t' = (st_index st + 1, title t, status t)"
    using step_to_markdown[of t st] Cons.prems by auto
  let ?s = "st\<lparr>st_index := st_index st + 1, st_tasks := st_tasks st @ [t']\<rparr>"
  have "map triple (st_tasks (foldl parse_step ?s (map to_markdown ts)))
       = map triple (st_tasks ?s) @ renumber (st_index ?s) ts
     \<and> st_index (foldl parse_step ?s (map to_markdown ts)) = st_index ?s + int (length ts)
     \<and> st_in_tasks (foldl parse_step ?s (map to_markdown ts)) = st_in_tasks ?s
     \<and> st_in_abandoned (foldl parse_step ?s (map to_markdown ts)) = st_in_abandoned ?s"
    using Cons.prems by (intro Cons.IH) simp_all
  then show ?case using t' by simp
qed

lemma renumber_append:
  "renumber k (xs @ ys) = renumber k xs @ renumber (k + int (length xs)) ys"
  by (induction xs arbitrary: k) (simp_all add: add.assoc add.commute)

section \<open>Round trip\<close>

lemma renumber_snoc:
  "renumber k (xs @ [t]) = renumber k xs @ [(k + int (length xs) + 1, title t, status t)]"
  by (simp add: renumber_append)

lemma numbered_step: "numbered st \<Longrightarrow> numbered (parse_step st line)"
  by (auto simp: numbered_def parse_step_def renumber_snoc triple_def
      dest: parse_task_line_index split: option.splits)

lemma numbered_foldl: "numbered st \<Longrightarrow> numbered (foldl parse_step st ls)"
  by (induction ls arbitrary: st) (auto simp: numbered_step)

lemma parse_renumber:
  "map triple (parse_tasks_from_markdown D) = renumber 0 (parse_tasks_from_markdown D)"
proof -
  have "numbered (foldl parse_step parse_init (splitlines D))"
    by (rule numbered_foldl) (simp add: numbered_def parse_init_def)
  then show ?thesis by (simp add: numbered_def parse_tasks_from_markdown_def parse_lines_def)
qed

lemma strip_headers:
  "strip TASK_SECTION_HEADER = TASK_SECTION_HEADER"
  "strip ABANDONED_SECTION_HEADER = ABANDONED_SECTION_HEADER"
  by (simp_all add: storage_defs)

lemma headers_distinct: "ABANDONED_SECTION_HEADER \<noteq> TASK_SECTION_HEADER"
  by (simp add: storage_defs)

lemma parse_step_task_header:
  "parse_step st TASK_SECTION_HEADER = st\<lparr>st_in_tasks := True, st_in_abandoned := False\<rparr>"
  by (simp add: parse_step_def strip_headers)

lemma parse_step_abandoned_header:
  "parse_step st ABANDONED_SECTION_HEADER = st\<lparr>st_in_abandoned := True, st_in_tasks := False\<rparr>"
  by (simp add: parse_step_def strip_headers headers_distinct)

lemma parse_step_empty: "parse_step st [] = st"
proof -
  have "TASK_LINE_match [] = None" by (simp add: TASK_LINE_match_def)
  then have "parse_task_line [] i = None" for i
    by (simp add: parse_task_line_def strip_Nil)
  moreover have "[] \<noteq> TASK_SECTION_HEADER" "[] \<noteq> ABANDONED_SECTION_HEADER"
    "\<not> startswith [] HEADING_MARK"
    by (simp_all add: storage_defs)
  ultimately show ?thesis by (simp add: parse_step_def strip_Nil)
qed

lemma parse_serialize_lines:
  assumes "\<forall>t \<in> set ts. wf_task t"
  shows "map triple (parse_lines (serialize_lines ts))
       = renumber 0 (filter (\<lambda>t. \<not> is_abandoned t) ts @ filter is_abandoned ts)"
proof -
  let ?main = "filter (\<lambda>t. \<not> is_abandoned t) ts"
  let ?ab = "filter is_abandoned ts"
  let ?s1 = "parse_init\<lparr>st_in_tasks := True, st_in_abandoned := False\<rparr>"
  let ?s2 = "foldl parse_step ?s1 (map to_markdown ?main)"
  have s1: "foldl parse_step parse_init [TASK_SECTION_HEADER, []] = ?s1"
    by (simp add: parse_step_task_header parse_step_empty)
  have s2: "map triple (st_tasks ?s2) = map triple (st_tasks ?s1) @ renumber (st_index ?s1) ?main
     \<and> st_index ?s2 = st_index ?s1 + int (length ?main)
     \<and> st_in_tasks ?s2 = st_in_tasks ?s1
     \<and> st_in_abandoned ?s2 = st_in_abandoned ?s1"
    using assms by (intro foldl_to_markdown) simp_all
  then have s2': "map triple (st_tasks ?s2) = renumber 0 ?main" "st_index ?s2 = int (length ?main)"
    by (simp_all add: parse_init_def)
  show ?thesis
  proof (cases "?ab = []")
    case True
    then have "serialize_lines ts = [TASK_SECTION_HEADER, []] @ map to_markdown ?main"
      by (simp add: serialize_lines_def Let_def append_tasks_eq)
    then have "parse_lines (serialize_lines ts) = st_tasks ?s2"
      by (simp only: parse_lines_def foldl_append s1)
    then show ?thesis using s2'(1) True by simp
  next
    case False
    let ?s3 = "?s2\<lparr>st_in_abandoned := True, st_in_tasks := False\<rparr>"
    let ?s4 = "foldl parse_step ?s3 (map to_markdown ?ab)"
    have s3: "foldl parse_step ?s2 [[], ABANDONED_SECTION_HEADER, []] = ?s3"
      by (simp add: parse_step_abandoned_header parse_step_empty)
    have "map triple (st_tasks ?s4) = map triple (st_tasks ?s3) @ renumber (st_index ?s3) ?ab
     \<and> st_index ?s4 = st_index ?s3 + int (length ?ab)
     \<and> st_in_tasks ?s4 = st_in_tasks ?s3
     \<and> st_in_abandoned ?s4 = st_in_abandoned ?s3"
      using assms by (intro foldl_to_markdown) simp_all
    then have s4: "map triple (st_tasks ?s4) = renumber 0 (?main @ ?ab)"
      using s2' by (simp add: renumber_append)
    have "serialize_lines ts = [TASK_SECTION_HEADER, []] @ map to_markdown ?main
        @ [[], ABANDONED_SECTION_HEADER, []] @ map to_markdown ?ab"
      using False by (simp add: serialize_lines_def Let_def append_tasks_eq)
    then have "parse_lines (serialize_lines ts) = st_tasks ?s4"
      by (simp only: parse_lines_def foldl_append s1 s3)
    then show ?thesis using s4 by simp
  qed
qed

lemma parse_lines_snoc_empty: "parse_lines (X @ [[]]) = parse_lines X"
  by (simp add: parse_lines_def parse_step_empty)

lemma parse_splitlines_join:
  assumes "\<forall>l \<in> set ls. no_linebreak l"
  shows "parse_lines (splitlines (join_nl ls)) = parse_lines ls"
proof (cases "ls = []")
  case True
  then show ?thesis by (simp add: splitlines_def)
next
  case False
  then have ls: "ls = butlast ls @ [last ls]" by simp
  have b: "\<forall>l \<in> set (butlast ls). no_linebreak l" using assms by (auto dest: in_set_butlastD)
  have l: "no_linebreak (last ls)" using assms False by simp
  have "splitlines (join_nl (butlast ls @ [last ls])) = butlast ls @ splitlines (last ls)"
    using b by (rule splitlines_join_then)
  then have sp: "splitlines (join_nl ls) = butlast ls @ (if last ls = [] then [] else [last ls])"
    using ls l by (simp add: splitlines_single)
  show ?thesis
  proof (cases "last ls = []")
    case True
    then have "parse_lines ls = parse_lines (butlast ls)"
      using ls parse_lines_snoc_empty[of "butlast ls"] by simp
    then show ?thesis using sp True by simp
  next
    case False
    then show ?thesis using sp ls by simp
  qed
qed

lemma const_no_linebreak:
  "no_linebreak TASK_SECTION_HEADER" "no_linebreak ABANDONED_SECTION_HEADER"
  "no_linebreak CHECK_PENDING" "no_linebreak CHECK_DONE" "no_linebreak CHECK_ABANDONED"
  "no_linebreak [45, 32, 91]" "no_linebreak [93, 32]"
  by (simp_all add: no_linebreak_def is_linebreak_def storage_defs)

lemma to_markdown_no_linebreak:
  assumes "wf_task t"
  shows "no_linebreak (to_markdown t)"
proof -
  have s: "no_linebreak (status t)"
    using assms const_no_linebreak(3-5) by (auto simp: wf_task_def)
  have t: "no_linebreak (title t)" using assms by (simp add: wf_task_def)
  show ?thesis
    unfolding to_markdown_def no_linebreak_simps(3)
    using s t const_no_linebreak(6,7) by blast
qed

lemma serialize_lines_no_linebreak:
  assumes "\<forall>t \<in> set ts. wf_task t"
  shows "\<forall>l \<in> set (serialize_lines ts). no_linebreak l"
  using assms
  by (auto simp: serialize_lines_def Let_def append_tasks_eq const_no_linebreak
      no_linebreak_simps(1) to_markdown_no_linebreak)

lemma parse_serialize:
  assumes "\<forall>t \<in> set ts. wf_task t"
  shows "map triple (parse_tasks_from_markdown (serialize_tasks_to_section ts))
       = renumber 0 (filter (\<lambda>t. \<not> is_abandoned t) ts @ filter is_abandoned ts)"
  unfolding parse_tasks_from_markdown_def serialize_tasks_to_section_def
  using parse_splitlines_join[OF serialize_lines_no_linebreak[OF assms]]
    parse_serialize_lines[OF assms] by simp

text \<open>
  C1 as the code has it. For every document \<open>D\<close>, parsing the serialization of the
  tasks parsed from \<open>D\<close> gives, by index, title and status, these tasks with the ones
  that are not abandoned first and the abandoned ones after them, numbered from 1. So
  when no abandoned task of \<open>parse(D)\<close> comes before a task that is not abandoned, the
  result agrees with \<open>parse(D)\<close> on the three fields at every position.
\<close>

theorem round_trip:
  "map triple (parse_tasks_from_markdown
       (serialize_tasks_to_section (parse_tasks_from_markdown D)))
     = renumber 0 (filter (\<lambda>t. \<not> is_abandoned t) (parse_tasks_from_markdown D)
         @ filter is_abandoned (parse_tasks_from_markdown D))
   \<and> (filter (\<lambda>t. \<not> is_abandoned t) (parse_tasks_from_markdown D)
         @ filter is_abandoned (parse_tasks_from_markdown D) = parse_tasks_from_markdown D
      \<longrightarrow> map triple (parse_tasks_from_markdown
             (serialize_tasks_to_section (parse_tasks_from_markdown D)))
          = map triple (parse_tasks_from_markdown D))"
proof -
  have wf: "\<forall>t \<in> set (parse_tasks_from_markdown D). wf_task t"
    using parse_wf by blast
  show ?thesis
    using parse_serialize[OF wf] parse_renumber[of D] by simp
qed

text \<open>
  The document made of the Task header, \<open>- [x] a\<close>, the Abandoned header and
  \<open>- [ ] b\<close>: its abandoned task comes last, and the round trip returns the same tasks.
\<close>

theorem round_trip_witness:
  "filter (\<lambda>t. \<not> is_abandoned t) (parse_tasks_from_markdown
       (TASK_SECTION_HEADER @ [10, 45, 32, 91, 120, 93, 32, 97, 10] @ ABANDONED_SECTION_HEADER
          @ [10, 45, 32, 91, 32, 93, 32, 98]))
     @ filter is_abandoned (parse_tasks_from_markdown
       (TASK_SECTION_HEADER @ [10, 45, 32, 91, 120, 93, 32, 97, 10] @ ABANDONED_SECTION_HEADER
          @ [10, 45, 32, 91, 32, 93, 32, 98]))
     = parse_tasks_from_markdown
       (TASK_SECTION_HEADER @ [10, 45, 32, 91, 120, 93, 32, 97, 10] @ ABANDONED_SECTION_HEADER
          @ [10, 45, 32, 91, 32, 93, 32, 98])
   \<and> map triple (parse_tasks_from_markdown (serialize_tasks_to_section
        (parse_tasks_from_markdown
          (TASK_SECTION_HEADER @ [10, 45, 32, 91, 120, 93, 32, 97, 10] @ ABANDONED_SECTION_HEADER
             @ [10, 45, 32, 91, 32, 93, 32, 98]))))
     = map triple (parse_tasks_from_markdown
          (TASK_SECTION_HEADER @ [10, 45, 32, 91, 120, 93, 32, 97, 10] @ ABANDONED_SECTION_HEADER
             @ [10, 45, 32, 91, 32, 93, 32, 98]))"
proof -
  have h: "filter (\<lambda>t. \<not> is_abandoned t) (parse_tasks_from_markdown
       (TASK_SECTION_HEADER @ [10, 45, 32, 91, 120, 93, 32, 97, 10] @ ABANDONED_SECTION_HEADER
          @ [10, 45, 32, 91, 32, 93, 32, 98]))
     @ filter is_abandoned (parse_tasks_from_markdown
       (TASK_SECTION_HEADER @ [10, 45, 32, 91, 120, 93, 32, 97, 10] @ ABANDONED_SECTION_HEADER
          @ [10, 45, 32, 91, 32, 93, 32, 98]))
     = parse_tasks_from_markdown
       (TASK_SECTION_HEADER @ [10, 45, 32, 91, 120, 93, 32, 97, 10] @ ABANDONED_SECTION_HEADER
          @ [10, 45, 32, 91, 32, 93, 32, 98])"
    by (simp add: storage_defs)
  from round_trip [of "TASK_SECTION_HEADER @ [10, 45, 32, 91, 120, 93, 32, 97, 10]
      @ ABANDONED_SECTION_HEADER @ [10, 45, 32, 91, 32, 93, 32, 98]"] h
  show ?thesis by blast
qed

text \<open>
  C1 as stated fails when an abandoned task comes before one that is not: the document
  made of the Task header, \<open>- [~] a\<close> and \<open>- [ ] b\<close> parses to \<open>a\<close> (index 1,
  abandoned) and \<open>b\<close> (index 2, pending), and the round trip gives \<open>b\<close> at index 1
  and \<open>a\<close> at index 2.
\<close>

theorem round_trip_counterexample:
  "map triple (parse_tasks_from_markdown
       (TASK_SECTION_HEADER @ [10, 45, 32, 91, 126, 93, 32, 97, 10, 45, 32, 91, 32, 93, 32, 98]))
     = [(1, [97], [126]), (2, [98], [32])]
   \<and> map triple (parse_tasks_from_markdown (serialize_tasks_to_section
        (parse_tasks_from_markdown
          (TASK_SECTION_HEADER
             @ [10, 45, 32, 91, 126, 93, 32, 97, 10, 45, 32, 91, 32, 93, 32, 98]))))
     = [(1, [98], [32]), (2, [97], [126])]"
  by (simp add: storage_defs serialize_tasks_to_section_def serialize_lines_def append_tasks_def
      triple_def)

section \<open>The parser: lines under the Abandoned header\<close>

lemma flags_step_body:
  assumes "\<not> is_heading l"
  shows "st_in_abandoned (parse_step st l) = st_in_abandoned st"
    "st_in_tasks (parse_step st l) = st_in_tasks st"
proof -
  have n: "strip l \<noteq> TASK_SECTION_HEADER" "strip l \<noteq> ABANDONED_SECTION_HEADER"
    "\<not> startswith (strip l) HEADING_MARK"
    using assms header_is_heading(1,2) by (auto simp: is_heading_def)
  show "st_in_abandoned (parse_step st l) = st_in_abandoned st"
    using n by (simp add: parse_step_def split: option.splits)
  show "st_in_tasks (parse_step st l) = st_in_tasks st"
    using n by (simp add: parse_step_def split: option.splits)
qed

lemma flags_foldl_body:
  assumes "\<forall>l \<in> set body. \<not> is_heading l"
  shows "st_in_abandoned (foldl parse_step st body) = st_in_abandoned st"
  using assms by (induction body arbitrary: st) (simp_all add: flags_step_body)

lemma in_abandoned_after_header:
  assumes "strip hdr = ABANDONED_SECTION_HEADER" "\<forall>l \<in> set body. \<not> is_heading l"
  shows "st_in_abandoned (foldl parse_step st (pre @ hdr # body))"
proof -
  have "ABANDONED_SECTION_HEADER \<noteq> TASK_SECTION_HEADER" by (simp add: storage_defs)
  then have "st_in_abandoned (parse_step (foldl parse_step st pre) hdr)"
    using assms(1) by (simp add: parse_step_def)
  then show ?thesis using flags_foldl_body[OF assms(2)] by simp
qed

text \<open>
  C3 (abandoned coercion). Take a document whose lines contain a line \<open>hdr\<close> that
  is the Abandoned header once stripped, then lines \<open>body\<close> none of which is a
  \<open>## \<close> heading, then a line that matches the checklist pattern. Whatever stands
  before the header (a Task section, for instance) and whatever character stands
  between the brackets of the line (the group \<open>g1\<close>), the parse result holds, at
  the position of that line, a task whose status is abandoned; its title is the text
  after the brackets and its index continues the numbering of the tasks before it.
\<close>

theorem abandoned_coercion:
  assumes "splitlines D = pre @ hdr # body @ line # rest"
    and "strip hdr = ABANDONED_SECTION_HEADER"
    and "\<forall>l \<in> set body. \<not> is_heading l"
    and "TASK_LINE_match (strip line) = Some (g1, g2)"
  shows "\<exists>t more. parse_tasks_from_markdown D = parse_lines (pre @ hdr # body) @ t # more
     \<and> status t = CHECK_ABANDONED \<and> title t = strip g2
     \<and> index t = int (length (parse_lines (pre @ hdr # body))) + 1"
proof -
  let ?p = "pre @ hdr # body"
  let ?s = "foldl parse_step parse_init ?p"
  have a: "st_in_abandoned ?s" using assms(2,3) by (rule in_abandoned_after_header)
  obtain t where t: "st_tasks (parse_step ?s line) = st_tasks ?s @ [t]"
    "status t = CHECK_ABANDONED" "title t = strip g2" "index t = st_index ?s + 1"
    using abandoned_step[OF a assms(4)] by blast
  obtain more where m: "st_tasks (foldl parse_step (parse_step ?s line) rest)
      = st_tasks (parse_step ?s line) @ more"
    using tasks_foldl_mono by blast
  have "dense ?s" by (rule dense_foldl) (rule dense_init)
  then have i: "st_index ?s = int (length (parse_lines ?p))"
    by (simp add: dense_def parse_lines_def)
  have "splitlines D = ?p @ line # rest" using assms(1) by simp
  then have "parse_tasks_from_markdown D = parse_lines ?p @ t # more"
    using t(1) m by (simp add: parse_tasks_from_markdown_def parse_lines_def)
  with t i show ?thesis by auto
qed

text \<open>
  The document with a Task section holding \<open>- [ ] a\<close>, then the Abandoned header,
  an empty line and the line \<open>- [ ] foo\<close>: the second task is abandoned although
  its brackets hold a space, and the first one stays pending.
\<close>

theorem abandoned_coercion_witness:
  "map triple (parse_tasks_from_markdown
       (TASK_SECTION_HEADER @ [10, 45, 32, 91, 32, 93, 32, 97, 10] @ ABANDONED_SECTION_HEADER
          @ [10, 10, 45, 32, 91, 32, 93, 32, 102, 111, 111]))
     = [(1, [97], CHECK_PENDING), (2, [102, 111, 111], CHECK_ABANDONED)]
   \<and> (\<exists>t more. parse_tasks_from_markdown
       (TASK_SECTION_HEADER @ [10, 45, 32, 91, 32, 93, 32, 97, 10] @ ABANDONED_SECTION_HEADER
          @ [10, 10, 45, 32, 91, 32, 93, 32, 102, 111, 111])
       = parse_lines ([TASK_SECTION_HEADER, [45, 32, 91, 32, 93, 32, 97]]
           @ ABANDONED_SECTION_HEADER # [[]]) @ t # more
     \<and> status t = CHECK_ABANDONED \<and> title t = strip [102, 111, 111]
     \<and> index t = int (length (parse_lines ([TASK_SECTION_HEADER, [45, 32, 91, 32, 93, 32, 97]]
           @ ABANDONED_SECTION_HEADER # [[]]))) + 1)"
proof
  show "map triple (parse_tasks_from_markdown
       (TASK_SECTION_HEADER @ [10, 45, 32, 91, 32, 93, 32, 97, 10] @ ABANDONED_SECTION_HEADER
          @ [10, 10, 45, 32, 91, 32, 93, 32, 102, 111, 111]))
     = [(1, [97], CHECK_PENDING), (2, [102, 111, 111], CHECK_ABANDONED)]"
    by (simp add: storage_defs triple_def)
next
  have 1: "splitlines
       (TASK_SECTION_HEADER @ [10, 45, 32, 91, 32, 93, 32, 97, 10] @ ABANDONED_SECTION_HEADER
          @ [10, 10, 45, 32, 91, 32, 93, 32, 102, 111, 111])
     = [TASK_SECTION_HEADER, [45, 32, 91, 32, 93, 32, 97]] @ ABANDONED_SECTION_HEADER # [[]]
         @ [45, 32, 91, 32, 93, 32, 102, 111, 111] # []"
    by (simp add: storage_defs)
  have 2: "strip ABANDONED_SECTION_HEADER = ABANDONED_SECTION_HEADER"
    by (simp add: storage_defs)
  have 3: "\<forall>l \<in> set [[]]. \<not> is_heading l"
    by (simp add: is_heading_def storage_defs)
  have 4: "TASK_LINE_match (strip [45, 32, 91, 32, 93, 32, 102, 111, 111])
      = Some ([32], [102, 111, 111])"
    by (simp add: storage_defs)
  show "\<exists>t more. parse_tasks_from_markdown
       (TASK_SECTION_HEADER @ [10, 45, 32, 91, 32, 93, 32, 97, 10] @ ABANDONED_SECTION_HEADER
          @ [10, 10, 45, 32, 91, 32, 93, 32, 102, 111, 111])
       = parse_lines ([TASK_SECTION_HEADER, [45, 32, 91, 32, 93, 32, 97]]
           @ ABANDONED_SECTION_HEADER # [[]]) @ t # more
     \<and> status t = CHECK_ABANDONED \<and> title t = strip [102, 111, 111]
     \<and> index t = int (length (parse_lines ([TASK_SECTION_HEADER, [45, 32, 91, 32, 93, 32, 97]]
           @ ABANDONED_SECTION_HEADER # [[]]))) + 1"
    using abandoned_coercion [OF 1 2 3 4] .
qed

section \<open>Generate: the cold start\<close>

lemma digit_range: "48 \<le> digit n \<and> digit n \<le> 57"
proof -
  have "n mod 10 < 10" by simp
  then show ?thesis unfolding digit_def by linarith
qed

lemma range_not_space: "45 \<le> c \<Longrightarrow> c \<le> 57 \<Longrightarrow> \<not> isspace c"
  by (auto simp: isspace_def)

lemma range_not_linebreak: "32 \<le> c \<Longrightarrow> c \<le> 57 \<Longrightarrow> \<not> is_linebreak c"
  by (auto simp: is_linebreak_def)

lemma digit_not_space: "\<not> isspace (digit n)"
  using digit_range[of n] by (intro range_not_space) simp_all

lemma digit_not_linebreak: "\<not> is_linebreak (digit n)"
  using digit_range[of n] by (intro range_not_linebreak) simp_all

lemma title_line_strip: "strip ([35, 32] @ isoformat d) = [35, 32] @ isoformat d"
proof (rule strip_fixed)
  show "[35, 32] @ isoformat d \<noteq> []" by simp
  show "\<not> isspace (hd ([35, 32] @ isoformat d))" by (simp add: isspace_def)
  show "\<not> isspace (last ([35, 32] @ isoformat d))"
    by (simp add: isoformat_def digit_not_space)
qed

lemma title_line_no_linebreak: "no_linebreak ([35, 32] @ isoformat d)"
proof -
  have "\<not> is_linebreak 35" "\<not> is_linebreak 32" "\<not> is_linebreak 45"
    by (simp_all add: is_linebreak_def)
  then show ?thesis
    by (simp add: no_linebreak_def isoformat_def digit_not_linebreak)
qed

lemma read_write: "read_daily_md (write_daily_md w b d c) b d = c"
  by (simp add: read_daily_md_def write_daily_md_def)

lemma files_write:
  "files (write_daily_md w b d c) p = (if p = path_for_date b d then Some c else files w p)"
  "llm_calls (write_daily_md w b d c) = llm_calls w"
  by (simp_all add: write_daily_md_def)

lemma title_line_not_header:
  "strip ([35, 32] @ isoformat d) \<noteq> TASK_SECTION_HEADER"
  "strip ([35, 32] @ isoformat d) \<noteq> ABANDONED_SECTION_HEADER"
  unfolding title_line_strip
  by (simp_all add: TASK_SECTION_HEADER_def ABANDONED_SECTION_HEADER_def)

lemma empty_document_lines:
  "[35, 32] @ isoformat d @ [10, 10] @ TASK_SECTION_HEADER @ [10, 10]
     = join_nl [[35, 32] @ isoformat d, [], TASK_SECTION_HEADER, [], []]"
  by simp

lemma empty_document_parse:
  "parse_tasks_from_markdown ([35, 32] @ isoformat d @ [10, 10] @ TASK_SECTION_HEADER @ [10, 10]) = []"
proof -
  have n: "\<forall>l \<in> set [[35, 32] @ isoformat d, [], TASK_SECTION_HEADER, [], []]. no_linebreak l"
    using title_line_no_linebreak[of d]
    by (simp add: no_linebreak_def TASK_SECTION_HEADER_def is_linebreak_def)
  have c: "parse_step parse_init ([35, 32] @ isoformat d) = parse_init"
    using title_line_not_header[of d]
    by (intro closed_step) (simp_all add: parse_init_def)
  have "parse_lines [[35, 32] @ isoformat d, [], TASK_SECTION_HEADER, [], []] = []"
    unfolding parse_lines_def foldl_Cons c
    by (simp add: storage_defs)
  then show ?thesis
    unfolding empty_document_lines parse_tasks_from_markdown_def
    using parse_splitlines_join[OF n] by simp
qed

text \<open>
  C9 (cold start). Let the date of the command be \<open>d\<close> and the day before it \<open>y\<close>, and
  let the document of \<open>y\<close> (the empty text when the file is missing) parse to no
  pending task. Then \<open>cmd_generate\<close> raises nothing and requests no chat completion,
  it changes no file but the one of \<open>d\<close>, and when that file is missing or blank it
  writes the title \<open># d\<close>, an empty line, the Task header and an empty line: a
  document that parses to no task.
\<close>

theorem cold_start:
  assumes "date_of e date_str = Inr d"
    and "minus_one_day d = Inr y"
    and "filter is_pending (parse_tasks_from_markdown (read_daily_md w (base_dir e) y)) = []"
  shows "fst (cmd_generate e date_str w) = None
     \<and> llm_calls (snd (cmd_generate e date_str w)) = llm_calls w
     \<and> (\<forall>p. p \<noteq> path_for_date (base_dir e) d \<longrightarrow>
           files (snd (cmd_generate e date_str w)) p = files w p)
     \<and> (strip (read_daily_md w (base_dir e) d) = [] \<longrightarrow>
          files (snd (cmd_generate e date_str w)) (path_for_date (base_dir e) d)
            = Some ([35, 32] @ isoformat d @ [10, 10] @ TASK_SECTION_HEADER @ [10, 10])
          \<and> parse_tasks_from_markdown (read_daily_md (snd (cmd_generate e date_str w)) (base_dir e) d) = [])
     \<and> (strip (read_daily_md w (base_dir e) d) \<noteq> [] \<longrightarrow>
          files (snd (cmd_generate e date_str w)) (path_for_date (base_dir e) d)
            = Some (replace_tasks_section (read_daily_md w (base_dir e) d)
                      (TASK_SECTION_HEADER @ [10, 10])))"
proof -
  let ?full = "if strip (read_daily_md w (base_dir e) d) = []
      then [35, 32] @ isoformat d @ [10, 10] @ TASK_SECTION_HEADER @ [10, 10]
      else replace_tasks_section (read_daily_md w (base_dir e) d) (TASK_SECTION_HEADER @ [10, 10])"
  have g: "cmd_generate e date_str w = (None, write_daily_md w (base_dir e) d ?full)"
    using assms by (simp add: cmd_generate_def Let_def)
  show ?thesis
    unfolding g using empty_document_parse[of d]
    by (simp add: read_write files_write)
qed

text \<open>
  The first day ever: no file at all, no key and a chat completion that would raise.
  The command for 2024-03-01 reads the missing file of 2024-02-29, requests nothing
  and writes \<open># 2024-03-01\<close>, an empty line, the Task header and an empty line.
\<close>

theorem cold_start_witness:
  "minus_one_day \<lparr>year = 2024, month = 3, day = 1\<rparr> = Inr \<lparr>year = 2024, month = 2, day = 29\<rparr>
   \<and> fst (cmd_generate
        \<lparr>base_dir = [100], today = \<lparr>year = 2024, month = 3, day = 1\<rparr>,
           fromisoformat = (\<lambda>s. None), api_key = [], chat = (\<lambda>s u. Raises),
           json_loads = (\<lambda>s. None)\<rparr>
        None \<lparr>files = Map.empty, llm_calls = []\<rparr>) = None
   \<and> llm_calls (snd (cmd_generate
        \<lparr>base_dir = [100], today = \<lparr>year = 2024, month = 3, day = 1\<rparr>,
           fromisoformat = (\<lambda>s. None), api_key = [], chat = (\<lambda>s u. Raises),
           json_loads = (\<lambda>s. None)\<rparr>
        None \<lparr>files = Map.empty, llm_calls = []\<rparr>)) = []
   \<and> files (snd (cmd_generate
        \<lparr>base_dir = [100], today = \<lparr>year = 2024, month = 3, day = 1\<rparr>,
           fromisoformat = (\<lambda>s. None), api_key = [], chat = (\<lambda>s u. Raises),
           json_loads = (\<lambda>s. None)\<rparr>
        None \<lparr>files = Map.empty, llm_calls = []\<rparr>))
        ([100], [50, 48, 50, 52, 45, 48, 51, 45, 48, 49, 46, 109, 100])
     = Some ([35, 32, 50, 48, 50, 52, 45, 48, 51, 45, 48, 49, 10, 10] @ TASK_SECTION_HEADER @ [10, 10])"
proof -
  let ?e = "\<lparr>base_dir = [100], today = \<lparr>year = 2024, month = 3, day = 1\<rparr>,
           fromisoformat = (\<lambda>s. None), api_key = [], chat = (\<lambda>s u. Raises),
           json_loads = (\<lambda>s. None)\<rparr>"
  let ?w = "\<lparr>files = Map.empty, llm_calls = []\<rparr>"
  have 1: "date_of ?e None = Inr \<lparr>year = 2024, month = 3, day = 1\<rparr>"
    by (simp add: date_of_def)
  have 2: "minus_one_day \<lparr>year = 2024, month = 3, day = 1\<rparr>
      = Inr \<lparr>year = 2024, month = 2, day = 29\<rparr>"
    by (simp add: minus_one_day_def days_in_month_def is_leap_def)
  have 3: "filter is_pending (parse_tasks_from_markdown
      (read_daily_md ?w (base_dir ?e) \<lparr>year = 2024, month = 2, day = 29\<rparr>)) = []"
    by (simp add: read_daily_md_def storage_defs)
  have 4: "strip (read_daily_md ?w (base_dir ?e) \<lparr>year = 2024, month = 3, day = 1\<rparr>) = []"
    by (simp add: read_daily_md_def storage_defs)
  have 5: "path_for_date (base_dir ?e) \<lparr>year = 2024, month = 3, day = 1\<rparr>
      = ([100], [50, 48, 50, 52, 45, 48, 51, 45, 48, 49, 46, 109, 100])"
    by (simp add: path_for_date_def isoformat_def digit_def)
  have 6: "isoformat \<lparr>year = 2024, month = 3, day = 1\<rparr> = [50, 48, 50, 52, 45, 48, 51, 45, 48, 49]"
    by (simp add: isoformat_def digit_def)
  show ?thesis
    using cold_start [OF 1 2 3] 2 4 unfolding 5 6 by simp
qed

section \<open>Update: a response that is not JSON\<close>

















end
